theory Spec2Isabelle
  imports Complex_Main "HOL-Library.Word"
begin

section \<open>The Nelder-Mead simplex optimiser of nm.h and nm.cpp\<close>

text \<open>
  The embedding follows \<^verbatim>\<open>src/src/nm.h\<close> and \<^verbatim>\<open>src/src/nm.cpp\<close> statement by statement.
  \<^item> \<^verbatim>\<open>uint32_t\<close> is \<open>32 word\<close>: \<open>size + 1\<close>, \<open>size - 1\<close>, \<open>++iterationCount\<close> and
    \<open>evalCount++\<close> wrap around as in the source. Loop indices and the role indices
    \<open>vs\<close>, \<open>vh\<close>, \<open>vg\<close> (which only ever receive a loop index) are \<open>nat\<close>.
  \<^item> \<^verbatim>\<open>double\<close> is \<open>real\<close>: arithmetic is exact, rounding, infinities and NaN are not
    modelled. The claim that depends on the range of \<^verbatim>\<open>double\<close> is stated over a second
    embedding of the same code, in the last section of the definitions, where results
    beyond the range of binary64 are infinities.
  \<^item> \<^verbatim>\<open>std::vector\<close> is a list. \<^verbatim>\<open>operator[]\<close> out of range is undefined behaviour in
    C++; here every element access is checked and yields the failure \<open>OutOfRange\<close>.
  \<^item> The class \<^verbatim>\<open>NelderMead\<close> is a record that is passed in and returned.
  \<^item> The field \<open>invocations\<close> is a ghost counter that is not in the source: it counts the
    calls of \<open>evalFunc\<close> in an unbounded \<open>nat\<close> and is never read by the program.
\<close>

type_synonym u32 = "32 word"
type_synonym vec = "real list"

datatype failure = OutOfRange | NoExit

definition andThen :: "failure + 'a \<Rightarrow> ('a \<Rightarrow> failure + 'b) \<Rightarrow> failure + 'b" where
  "andThen m k = (case m of Inl e \<Rightarrow> Inl e | Inr x \<Rightarrow> k x)"

subsection \<open>Checked element access\<close>

definition rd :: "'a list \<Rightarrow> nat \<Rightarrow> failure + 'a" where
  "rd xs i = (if i < length xs then Inr (xs ! i) else Inl OutOfRange)"

definition wr :: "'a list \<Rightarrow> nat \<Rightarrow> 'a \<Rightarrow> failure + 'a list" where
  "wr xs i x = (if i < length xs then Inr (xs[i := x]) else Inl OutOfRange)"

definition rd2 :: "'a list list \<Rightarrow> nat \<Rightarrow> nat \<Rightarrow> failure + 'a" where
  "rd2 w i j = andThen (rd w i) (\<lambda>row. rd row j)"

definition wr2 :: "'a list list \<Rightarrow> nat \<Rightarrow> nat \<Rightarrow> 'a \<Rightarrow> failure + 'a list list" where
  "wr2 w i j x = andThen (rd w i) (\<lambda>row. andThen (wr row j x) (\<lambda>row'. Inr (w[i := row'])))"

text \<open>\<open>upd xs i g\<close>: the element \<open>xs[i]\<close> is handed by reference to \<open>g\<close>, which changes it in place.\<close>

definition upd :: "'a list \<Rightarrow> nat \<Rightarrow> ('a \<Rightarrow> 'a) \<Rightarrow> failure + 'a list" where
  "upd xs i g = andThen (rd xs i) (\<lambda>x. Inr (xs[i := g x]))"

subsection \<open>Counted loops\<close>

fun for_each :: "nat list \<Rightarrow> (nat \<Rightarrow> 's \<Rightarrow> failure + 's) \<Rightarrow> 's \<Rightarrow> failure + 's" where
  "for_each [] body s = Inr s"
| "for_each (j # js) body s =
     (case body j s of Inl e \<Rightarrow> Inl e | Inr s' \<Rightarrow> for_each js body s')"

text \<open>\<^verbatim>\<open>for (uint32_t j = 0; j < n; j++)\<close>\<close>

definition for_lt :: "u32 \<Rightarrow> (nat \<Rightarrow> 's \<Rightarrow> failure + 's) \<Rightarrow> 's \<Rightarrow> failure + 's" where
  "for_lt n body s = for_each [0..<unat n] body s"

text \<open>
  \<^verbatim>\<open>for (uint32_t j = lo; j <= n; j++)\<close>. When \<open>n\<close> is \<^verbatim>\<open>0xFFFFFFFF\<close> the guard is true for
  every \<^verbatim>\<open>uint32_t\<close> and the loop has no normal exit: it ends in the first failure of its
  body, and when the body survives one full cycle of the index the model reports \<open>NoExit\<close>.
\<close>

definition for_le :: "nat \<Rightarrow> u32 \<Rightarrow> (nat \<Rightarrow> 's \<Rightarrow> failure + 's) \<Rightarrow> 's \<Rightarrow> failure + 's" where
  "for_le lo n body s =
     (if n = - 1
      then (case for_each [lo..<2 ^ 32] body s of Inl e \<Rightarrow> Inl e | Inr s' \<Rightarrow> Inl NoExit)
      else for_each [lo..<Suc (unat n)] body s)"

subsection \<open>The data of nm.h\<close>

record NelderMeadResults =
  res_iterationCount :: u32
  res_evalCount :: u32
  res_minValues :: vec
  res_min :: real

record NelderMead =
  configMaxIterations :: u32
  configReflectionCoefficient :: real
  configContractionCoefficient :: real
  configExpansionCoefficient :: real
  size_nm :: u32
  evalFunc :: "vec \<Rightarrow> real"
  constrainFunc :: "(vec \<Rightarrow> vec) option"
  v :: "vec list"
  f :: vec
  vr :: vec
  ve :: vec
  vc :: vec
  vm :: vec
  evalCount :: u32
  vs :: nat
  vh :: nat
  vg :: nat
  lastExecResults :: NelderMeadResults
  invocations :: nat

definition setMaxIterations :: "u32 \<Rightarrow> NelderMead \<Rightarrow> NelderMead" where
  "setMaxIterations inValue st = st\<lparr>configMaxIterations := inValue\<rparr>"

definition setReflectionCoefficient :: "real \<Rightarrow> NelderMead \<Rightarrow> NelderMead" where
  "setReflectionCoefficient inValue st = st\<lparr>configReflectionCoefficient := inValue\<rparr>"

definition setContractionCoefficient :: "real \<Rightarrow> NelderMead \<Rightarrow> NelderMead" where
  "setContractionCoefficient inValue st = st\<lparr>configContractionCoefficient := inValue\<rparr>"

definition setExpansionCoefficient :: "real \<Rightarrow> NelderMead \<Rightarrow> NelderMead" where
  "setExpansionCoefficient inValue st = st\<lparr>configExpansionCoefficient := inValue\<rparr>"

definition getLastExecResults :: "NelderMead \<Rightarrow> NelderMeadResults" where
  "getLastExecResults st = lastExecResults st"

text \<open>\<^verbatim>\<open>doEvaluate\<close>: count the call, then call the objective.\<close>

definition doEvaluate :: "NelderMead \<Rightarrow> vec \<Rightarrow> real \<times> NelderMead" where
  "doEvaluate st x =
     (evalFunc st x, st\<lparr>evalCount := evalCount st + 1, invocations := Suc (invocations st)\<rparr>)"

subsection \<open>The constructor\<close>

text \<open>\<^verbatim>\<open>std::vector<double>::resize(n)\<close>: keep what is there, fill with \<open>0.0\<close>.\<close>

definition resize :: "nat \<Rightarrow> vec \<Rightarrow> vec" where
  "resize n xs = take n xs @ replicate (n - length xs) 0"

text \<open>
  The members \<open>iterationCount\<close>, \<open>evalCount\<close> and \<open>min\<close> of \<open>lastExecResults\<close> have no
  initialiser; what they hold after construction is the parameter \<open>uninit\<close>.
\<close>

definition NelderMead_ctor ::
  "u32 \<Rightarrow> (vec \<Rightarrow> real) \<Rightarrow> (vec \<Rightarrow> vec) option \<Rightarrow> NelderMeadResults \<Rightarrow> failure + NelderMead" where
  "NelderMead_ctor inSize inEvalFunc inConstrainFunc uninit =
     andThen (for_le 0 inSize (\<lambda>i w. upd w i (resize (unat inSize)))
                (replicate (unat (inSize + 1)) []))
       (\<lambda>w. Inr \<lparr>configMaxIterations = 1000,
                 configReflectionCoefficient = 1,
                 configContractionCoefficient = 1 / 2,
                 configExpansionCoefficient = 2,
                 size_nm = inSize,
                 evalFunc = inEvalFunc,
                 constrainFunc = inConstrainFunc,
                 v = w,
                 f = replicate (unat (inSize + 1)) 0,
                 vr = replicate (unat inSize) 0,
                 ve = replicate (unat inSize) 0,
                 vc = replicate (unat inSize) 0,
                 vm = replicate (unat inSize) 0,
                 evalCount = 0,
                 vs = 0, vh = 0, vg = 0,
                 lastExecResults = uninit\<lparr>res_minValues := []\<rparr>,
                 invocations = 0\<rparr>)"

subsection \<open>doInitialize\<close>

definition doInitialize :: "vec \<Rightarrow> real \<Rightarrow> NelderMead \<Rightarrow> failure + NelderMead" where
  "doInitialize start scale st =
     (let n = size_nm st;
          pn = scale * (sqrt (real (unat (n + 1))) - 1 + real (unat n)) / (real (unat n) * sqrt 2);
          qn = scale * (sqrt (real (unat (n + 1))) - 1) / (real (unat n) * sqrt 2)
      in andThen (for_lt n (\<lambda>i w. andThen (rd start i) (\<lambda>x. wr2 w 0 i x)) (v st))
        (\<lambda>w0. andThen
           (for_le 1 n (\<lambda>i w.
              for_lt n (\<lambda>j w.
                andThen (if i - 1 = j
                         then andThen (rd start j) (\<lambda>x. Inr (pn + x))
                         else andThen (rd start j) (\<lambda>x. Inr (qn + x)))
                  (\<lambda>y. wr2 w i j y)) w) w0)
        (\<lambda>w1. Inr (st\<lparr>evalCount := 0, vs := 0, vh := 0, vg := 0, v := w1\<rparr>))))"

subsection \<open>doIndexes\<close>

definition doIndexes :: "NelderMead \<Rightarrow> failure + NelderMead" where
  "doIndexes st0 =
     (let st = st0\<lparr>vh := vs st0\<rparr> in
      andThen
        (for_le 0 (size_nm st) (\<lambda>j (g, s).
           andThen (rd (f st) j) (\<lambda>fj. andThen (rd (f st) g) (\<lambda>fg.
             let g' = (if fj > fg then j else g) in
             andThen (rd (f st) j) (\<lambda>fj. andThen (rd (f st) s) (\<lambda>fs.
               Inr (g', if fj < fs then j else s))))))
           (vg st, vs st))
        (\<lambda>(g, s). andThen
           (for_le 0 (size_nm st) (\<lambda>j h.
              andThen (rd (f st) j) (\<lambda>fj. andThen (rd (f st) h) (\<lambda>fh.
                if fj > fh
                then andThen (rd (f st) j) (\<lambda>fj. andThen (rd (f st) g) (\<lambda>fg.
                       Inr (if fj < fg then j else h)))
                else Inr h)))
              s)
           (\<lambda>h. Inr (st\<lparr>vs := s, vh := h, vg := g\<rparr>))))"

subsection \<open>The blocks of exec\<close>

text \<open>\<^verbatim>\<open>if (constrainFunc) constrainFunc(x)\<close> on a scratch vector.\<close>

definition constrain :: "NelderMead \<Rightarrow> vec \<Rightarrow> vec" where
  "constrain st x = (case constrainFunc st of None \<Rightarrow> x | Some c \<Rightarrow> c x)"

text \<open>\<^verbatim>\<open>if (constrainFunc != NULL) constrainFunc(v[i])\<close>: the row is touched only when there is
  a constraint function.\<close>

definition constrain_row :: "NelderMead \<Rightarrow> nat \<Rightarrow> vec list \<Rightarrow> failure + vec list" where
  "constrain_row st i w = (case constrainFunc st of None \<Rightarrow> Inr w | Some c \<Rightarrow> upd w i c)"

text \<open>Lines 126-130: constrain every vertex of the fresh simplex.\<close>

definition constrain_all :: "NelderMead \<Rightarrow> failure + NelderMead" where
  "constrain_all st =
     (case constrainFunc st of
        None \<Rightarrow> Inr st
      | Some c \<Rightarrow> andThen (for_le 0 (size_nm st) (\<lambda>j w. upd w j c) (v st))
                    (\<lambda>w. Inr (st\<lparr>v := w\<rparr>)))"

text \<open>Lines 133-135 and 247-249: \<^verbatim>\<open>f[j] = doEvaluate(v[j])\<close> for every vertex.\<close>

definition evaluate_all :: "NelderMead \<Rightarrow> failure + NelderMead" where
  "evaluate_all st =
     for_le 0 (size_nm st) (\<lambda>j s.
       andThen (rd (v s) j) (\<lambda>x.
         case doEvaluate s x of (y, s') \<Rightarrow>
           andThen (wr (f s') j y) (\<lambda>g. Inr (s'\<lparr>f := g\<rparr>)))) st"

text \<open>Lines 122-135: the state in which the loop is entered.\<close>

definition exec_init :: "vec \<Rightarrow> real \<Rightarrow> NelderMead \<Rightarrow> failure + NelderMead" where
  "exec_init start scale st =
     andThen (doInitialize start scale st) (\<lambda>st1.
     andThen (constrain_all st1) evaluate_all)"

text \<open>Lines 151-160: the centroid of all vertices but \<open>vg\<close>.\<close>

definition centroid :: "NelderMead \<Rightarrow> failure + NelderMead" where
  "centroid st =
     andThen
       (for_le 0 (size_nm st - 1) (\<lambda>j m.
          andThen
            (for_le 0 (size_nm st) (\<lambda>k cent.
               if k \<noteq> vg st then andThen (rd2 (v st) k j) (\<lambda>x. Inr (cent + x)) else Inr cent)
               0)
            (\<lambda>cent. wr m j (cent / real (unat (size_nm st)))))
          (vm st))
       (\<lambda>m. Inr (st\<lparr>vm := m\<rparr>))"

text \<open>Lines 163-168: reflect \<open>vg\<close> through the centroid and constrain the result.\<close>

definition reflection :: "NelderMead \<Rightarrow> failure + NelderMead" where
  "reflection st =
     andThen
       (for_le 0 (size_nm st - 1) (\<lambda>j r.
          andThen
            (andThen (rd (vm st) j) (\<lambda>m. andThen (rd (vm st) j) (\<lambda>m'.
               andThen (rd2 (v st) (vg st) j) (\<lambda>x.
                 Inr (m + configReflectionCoefficient st * (m' - x))))))
            (\<lambda>y. wr r j y))
          (vr st))
       (\<lambda>r. Inr (st\<lparr>vr := constrain st r\<rparr>))"

text \<open>
  The four places that copy a candidate into the worst vertex and store its value
  (lines 173-176, 190-193, 196-199, 228-231):
  \<^verbatim>\<open>for (j = 0; j <= size - 1; j++) v[vg][j] = x[j];  f[vg] = fx;\<close>
\<close>

definition accept :: "vec \<Rightarrow> real \<Rightarrow> NelderMead \<Rightarrow> failure + NelderMead" where
  "accept x fx st =
     andThen
       (for_le 0 (size_nm st - 1) (\<lambda>j w. andThen (rd x j) (\<lambda>y. wr2 w (vg st) j y)) (v st))
       (\<lambda>w. andThen (wr (f st) (vg st) fx) (\<lambda>g. Inr (st\<lparr>v := w, f := g\<rparr>)))"

text \<open>Lines 172-177. The flag tells whether the branch was entered.\<close>

definition accept_reflection :: "real \<Rightarrow> NelderMead \<Rightarrow> failure + bool \<times> NelderMead" where
  "accept_reflection fr st =
     andThen (rd (f st) (vh st)) (\<lambda>fh.
       andThen (if fr < fh then andThen (rd (f st) (vs st)) (\<lambda>fs. Inr (fr \<ge> fs)) else Inr False)
         (\<lambda>c. if c then andThen (accept (vr st) fr st) (\<lambda>st'. Inr (True, st'))
              else Inr (False, st)))"

text \<open>Lines 180-201.\<close>

definition expansion :: "real \<Rightarrow> NelderMead \<Rightarrow> failure + bool \<times> NelderMead" where
  "expansion fr st =
     andThen (rd (f st) (vs st)) (\<lambda>fs.
       if fr < fs then
         andThen
           (for_le 0 (size_nm st - 1) (\<lambda>j e.
              andThen
                (andThen (rd (vm st) j) (\<lambda>m. andThen (rd (vr st) j) (\<lambda>r.
                   andThen (rd (vm st) j) (\<lambda>m'.
                     Inr (m + configExpansionCoefficient st * (r - m'))))))
                (\<lambda>y. wr e j y))
              (ve st))
           (\<lambda>e. let st1 = st\<lparr>ve := constrain st e\<rparr> in
                case doEvaluate st1 (ve st1) of (fe, st2) \<Rightarrow>
                  andThen (if fe < fr then accept (ve st2) fe st2 else accept (vr st2) fr st2)
                    (\<lambda>st3. Inr (True, st3)))
       else Inr (False, st))"

text \<open>
  Lines 254-257 and 258-261, the same three statements for \<open>vg\<close> and for \<open>vh\<close>:
  \<^verbatim>\<open>if (constrainFunc != NULL) constrainFunc(v[i]);  f[i] = doEvaluate(v[i]);\<close>
\<close>

definition reevaluate :: "nat \<Rightarrow> NelderMead \<Rightarrow> failure + NelderMead" where
  "reevaluate i st =
     andThen (constrain_row st i (v st)) (\<lambda>w.
       andThen (rd w i) (\<lambda>x.
         case doEvaluate (st\<lparr>v := w\<rparr>) x of (y, st') \<Rightarrow>
           andThen (wr (f st') i y) (\<lambda>g. Inr (st'\<lparr>f := g\<rparr>))))"

text \<open>Lines 238-261: halve the distance of every vertex to \<open>vs\<close>, evaluate all vertices,
  find the indices again, then constrain and evaluate the vertices \<open>vg\<close> and \<open>vh\<close>.\<close>

definition shrink :: "NelderMead \<Rightarrow> failure + NelderMead" where
  "shrink st =
     andThen
       (for_le 0 (size_nm st) (\<lambda>row w.
          if row \<noteq> vs st
          then for_le 0 (size_nm st - 1) (\<lambda>j w.
                 andThen
                   (andThen (rd2 w (vs st) j) (\<lambda>a. andThen (rd2 w row j) (\<lambda>b.
                      andThen (rd2 w (vs st) j) (\<lambda>a'. Inr (a + (b - a') / 2)))))
                   (\<lambda>y. wr2 w row j y)) w
          else Inr w)
          (v st))
       (\<lambda>w. andThen (evaluate_all (st\<lparr>v := w\<rparr>)) (\<lambda>st1.
          andThen (doIndexes st1) (\<lambda>st2.
            andThen (reevaluate (vg st2) st2) (\<lambda>st4.
              reevaluate (vh st4) st4))))"

text \<open>Lines 204-263. The flags tell whether the branch was entered and whether it shrank.\<close>

definition contraction :: "real \<Rightarrow> NelderMead \<Rightarrow> failure + (bool \<times> bool) \<times> NelderMead" where
  "contraction fr st =
     andThen (rd (f st) (vh st)) (\<lambda>fh.
       if fr \<ge> fh then
         andThen (rd (f st) (vg st)) (\<lambda>fg.
         andThen (if fr < fg then andThen (rd (f st) (vh st)) (\<lambda>fh'. Inr (fr \<ge> fh')) else Inr False)
           (\<lambda>outside.
         andThen
           (if outside
            then for_le 0 (size_nm st - 1) (\<lambda>j c.
                   andThen
                     (andThen (rd (vm st) j) (\<lambda>m. andThen (rd (vr st) j) (\<lambda>r.
                        andThen (rd (vm st) j) (\<lambda>m'.
                          Inr (m + configContractionCoefficient st * (r - m'))))))
                     (\<lambda>y. wr c j y))
                   (vc st)
            else for_le 0 (size_nm st - 1) (\<lambda>j c.
                   andThen
                     (andThen (rd (vm st) j) (\<lambda>m. andThen (rd (vm st) j) (\<lambda>m'.
                        andThen (rd2 (v st) (vg st) j) (\<lambda>x.
                          Inr (m - configContractionCoefficient st * (m' - x))))))
                     (\<lambda>y. wr c j y))
                   (vc st))
           (\<lambda>c. let st1 = st\<lparr>vc := constrain st c\<rparr> in
                case doEvaluate st1 (vc st1) of (fc, st2) \<Rightarrow>
                  andThen (rd (f st2) (vg st2)) (\<lambda>fg'.
                    if fc < fg'
                    then andThen (accept (vc st2) fc st2) (\<lambda>st3. Inr ((True, False), st3))
                    else andThen (shrink st2) (\<lambda>st3. Inr ((True, True), st3))))))
       else Inr ((False, False), st))"

text \<open>Which of the three \<^verbatim>\<open>if\<close> statements of one trip through the loop were entered.\<close>

record path =
  reflected :: bool
  expanded :: bool
  contracted :: bool
  shrunk :: bool

text \<open>Lines 148-263: one trip through the loop body, up to the convergence test.\<close>

definition iteration :: "NelderMead \<Rightarrow> failure + path \<times> NelderMead" where
  "iteration st0 =
     andThen (doIndexes st0) (\<lambda>st1.
     andThen (centroid st1) (\<lambda>st2.
     andThen (reflection st2) (\<lambda>st3.
       case doEvaluate st3 (vr st3) of (fr, st4) \<Rightarrow>
         andThen (accept_reflection fr st4) (\<lambda>(b1, st5).
         andThen (expansion fr st5) (\<lambda>(b2, st6).
         andThen (contraction fr st6) (\<lambda>((b3, b4), st7).
           Inr (\<lparr>reflected = b1, expanded = b2, contracted = b3, shrunk = b4\<rparr>, st7)))))))"

text \<open>Lines 271-280: the statistic of the convergence test.\<close>

definition spread :: "NelderMead \<Rightarrow> failure + real" where
  "spread st =
     andThen (for_le 0 (size_nm st) (\<lambda>j fsum. andThen (rd (f st) j) (\<lambda>x. Inr (fsum + x))) 0)
       (\<lambda>fsum.
          let favg = fsum / real (unat (size_nm st + 1)) in
          andThen
            (for_le 0 (size_nm st) (\<lambda>j s.
               andThen (rd (f st) j) (\<lambda>x. Inr (s + (x - favg) ^ 2 / real (unat (size_nm st)))))
               0)
            (\<lambda>s. Inr (sqrt s)))"

text \<open>
  Lines 143-285: \<^verbatim>\<open>while (++iterationCount <= configMaxIterations) { ...; if (s < tolerancee) break; }\<close>.
  The result is the counter and the state with which the loop is left; \<open>None\<close> is a loop
  that never ends.
\<close>

partial_function (option) exec_loop ::
  "real \<Rightarrow> u32 \<Rightarrow> NelderMead \<Rightarrow> (failure + u32 \<times> NelderMead) option" where
  "exec_loop tolerancee iterationCount st =
     (let it = iterationCount + 1 in
      if it \<le> configMaxIterations st then
        (case iteration st of
           Inl e \<Rightarrow> Some (Inl e)
         | Inr (p, st') \<Rightarrow>
             (case spread st' of
                Inl e \<Rightarrow> Some (Inl e)
              | Inr s \<Rightarrow> if s < tolerancee then Some (Inr (it, st'))
                         else exec_loop tolerancee it st'))
      else Some (Inr (it, st)))"

text \<open>Lines 288-297: the result of the run.\<close>

definition exec_finish :: "u32 \<Rightarrow> NelderMead \<Rightarrow> failure + NelderMead" where
  "exec_finish iterationCount st =
     andThen (doIndexes st) (\<lambda>st1.
     andThen (rd (v st1) (vs st1)) (\<lambda>x.
       case doEvaluate st1 x of (m, st2) \<Rightarrow>
         let r = (lastExecResults st2)\<lparr>res_min := m, res_evalCount := evalCount st2,
                   res_iterationCount := iterationCount, res_minValues := []\<rparr> in
         andThen
           (for_lt (size_nm st2) (\<lambda>j mv. andThen (rd2 (v st2) (vs st2) j) (\<lambda>y. Inr (mv @ [y])))
              (res_minValues r))
           (\<lambda>mv. Inr (st2\<lparr>lastExecResults := r\<lparr>res_minValues := mv\<rparr>\<rparr>))))"

definition exec :: "vec \<Rightarrow> real \<Rightarrow> real \<Rightarrow> NelderMead \<Rightarrow> (failure + NelderMead) option" where
  "exec start tolerancee scale st =
     (case exec_init start scale st of
        Inl e \<Rightarrow> Some (Inl e)
      | Inr st1 \<Rightarrow>
          (case exec_loop tolerancee 0 st1 of
             None \<Rightarrow> None
           | Some (Inl e) \<Rightarrow> Some (Inl e)
           | Some (Inr (it, st2)) \<Rightarrow> Some (exec_finish it st2)))"

section \<open>Well-formed instances and the values the blocks compute\<close>

definition dim :: "NelderMead \<Rightarrow> nat" where
  "dim st = unat (size_nm st)"

text \<open>
  The shape the constructor sets up and every operation keeps: \<open>size + 1\<close> vertices of
  \<open>size\<close> coordinates, \<open>size + 1\<close> values, scratch vectors of \<open>size\<close> coordinates, role
  indices that point into the value table, and a constraint function that hands back a
  vector as long as the one it was given.
\<close>

definition wf :: "NelderMead \<Rightarrow> bool" where
  "wf st \<longleftrightarrow>
     size_nm st \<noteq> - 1 \<and>
     length (v st) = Suc (dim st) \<and> (\<forall>x \<in> set (v st). length x = dim st) \<and>
     length (f st) = Suc (dim st) \<and>
     length (vr st) = dim st \<and> length (ve st) = dim st \<and>
     length (vc st) = dim st \<and> length (vm st) = dim st \<and>
     vs st \<le> dim st \<and> vh st \<le> dim st \<and> vg st \<le> dim st \<and>
     (\<forall>c x. constrainFunc st = Some c \<longrightarrow> length x = dim st \<longrightarrow> length (c x) = dim st)"

text \<open>
  On a well-formed instance no access fails, and each block is a plain function of the
  state. The functions below are these values, written with whole-vector operations; the
  lemmas \<open>\<dots>_eq\<close> prove that the blocks of the model compute them.
\<close>

definition doInitialize_p :: "vec \<Rightarrow> real \<Rightarrow> NelderMead \<Rightarrow> NelderMead" where
  "doInitialize_p start scale st =
     (let n = dim st;
          pn = scale * (sqrt (real (Suc n)) - 1 + real n) / (real n * sqrt 2);
          qn = scale * (sqrt (real (Suc n)) - 1) / (real n * sqrt 2)
      in st\<lparr>evalCount := 0, vs := 0, vh := 0, vg := 0,
             v := map (\<lambda>i. map (\<lambda>j. if i = 0 then start ! j
                                     else (if i - 1 = j then pn else qn) + start ! j) [0..<n])
                    [0..<Suc n]\<rparr>)"

definition arg_scan :: "(real \<Rightarrow> real \<Rightarrow> bool) \<Rightarrow> vec \<Rightarrow> nat list \<Rightarrow> nat \<Rightarrow> nat" where
  "arg_scan better xs js i0 = fold (\<lambda>j i. if better (xs ! j) (xs ! i) then j else i) js i0"

definition doIndexes_p :: "NelderMead \<Rightarrow> NelderMead" where
  "doIndexes_p st =
     (let g = arg_scan (\<lambda>a b. a > b) (f st) [0..<Suc (dim st)] (vg st);
          s = arg_scan (\<lambda>a b. a < b) (f st) [0..<Suc (dim st)] (vs st);
          h = arg_scan (\<lambda>a b. a > b \<and> a < f st ! g) (f st) [0..<Suc (dim st)] s
      in st\<lparr>vs := s, vh := h, vg := g\<rparr>)"

definition constrain_all_p :: "NelderMead \<Rightarrow> NelderMead" where
  "constrain_all_p st = st\<lparr>v := map (constrain st) (v st)\<rparr>"

definition evaluate_all_p :: "NelderMead \<Rightarrow> NelderMead" where
  "evaluate_all_p st =
     st\<lparr>f := map (evalFunc st) (v st),
        evalCount := evalCount st + of_nat (Suc (dim st)),
        invocations := invocations st + Suc (dim st)\<rparr>"

definition exec_init_p :: "vec \<Rightarrow> real \<Rightarrow> NelderMead \<Rightarrow> NelderMead" where
  "exec_init_p start scale st = evaluate_all_p (constrain_all_p (doInitialize_p start scale st))"

definition centroid_p :: "NelderMead \<Rightarrow> NelderMead" where
  "centroid_p st =
     st\<lparr>vm := map (\<lambda>j. fold (\<lambda>k cent. if k \<noteq> vg st then cent + v st ! k ! j else cent)
                          [0..<Suc (dim st)] 0 / real (dim st))
                [0..<dim st]\<rparr>"

definition reflection_p :: "NelderMead \<Rightarrow> NelderMead" where
  "reflection_p st =
     st\<lparr>vr := constrain st
             (map (\<lambda>j. vm st ! j + configReflectionCoefficient st * (vm st ! j - v st ! vg st ! j))
                [0..<dim st])\<rparr>"

definition accept_p :: "vec \<Rightarrow> real \<Rightarrow> NelderMead \<Rightarrow> NelderMead" where
  "accept_p x fx st = st\<lparr>v := (v st)[vg st := x], f := (f st)[vg st := fx]\<rparr>"

definition accept_reflection_p :: "real \<Rightarrow> NelderMead \<Rightarrow> bool \<times> NelderMead" where
  "accept_reflection_p fr st =
     (if fr < f st ! vh st \<and> fr \<ge> f st ! vs st then (True, accept_p (vr st) fr st)
      else (False, st))"

definition expansion_p :: "real \<Rightarrow> NelderMead \<Rightarrow> bool \<times> NelderMead" where
  "expansion_p fr st =
     (if fr < f st ! vs st then
        (let st1 = st\<lparr>ve := constrain st
                     (map (\<lambda>j. vm st ! j + configExpansionCoefficient st * (vr st ! j - vm st ! j))
                        [0..<dim st])\<rparr>;
             fe = evalFunc st1 (ve st1);
             st2 = snd (doEvaluate st1 (ve st1))
         in (True, if fe < fr then accept_p (ve st2) fe st2 else accept_p (vr st2) fr st2))
      else (False, st))"

definition shrink_rows :: "NelderMead \<Rightarrow> vec list" where
  "shrink_rows st =
     map (\<lambda>row. if row \<noteq> vs st
                then map (\<lambda>j. v st ! vs st ! j + (v st ! row ! j - v st ! vs st ! j) / 2)
                       [0..<dim st]
                else v st ! row)
       [0..<Suc (dim st)]"

definition reevaluate_p :: "nat \<Rightarrow> NelderMead \<Rightarrow> NelderMead" where
  "reevaluate_p i st =
     (let w = (v st)[i := constrain st (v st ! i)];
          st1 = snd (doEvaluate (st\<lparr>v := w\<rparr>) (w ! i))
      in st1\<lparr>f := (f st1)[i := evalFunc st (w ! i)]\<rparr>)"

definition shrink_p :: "NelderMead \<Rightarrow> NelderMead" where
  "shrink_p st =
     (let st2 = doIndexes_p (evaluate_all_p (st\<lparr>v := shrink_rows st\<rparr>));
          st4 = reevaluate_p (vg st2) st2
      in reevaluate_p (vh st4) st4)"

definition contraction_p :: "real \<Rightarrow> NelderMead \<Rightarrow> (bool \<times> bool) \<times> NelderMead" where
  "contraction_p fr st =
     (if fr \<ge> f st ! vh st then
        (let c = (if fr < f st ! vg st \<and> fr \<ge> f st ! vh st
                  then map (\<lambda>j. vm st ! j
                              + configContractionCoefficient st * (vr st ! j - vm st ! j))
                         [0..<dim st]
                  else map (\<lambda>j. vm st ! j
                              - configContractionCoefficient st * (vm st ! j - v st ! vg st ! j))
                         [0..<dim st]);
             st1 = st\<lparr>vc := constrain st c\<rparr>;
             fc = evalFunc st1 (vc st1);
             st2 = snd (doEvaluate st1 (vc st1))
         in if fc < f st2 ! vg st2 then ((True, False), accept_p (vc st2) fc st2)
            else ((True, True), shrink_p st2))
      else ((False, False), st))"

definition iteration_p :: "NelderMead \<Rightarrow> path \<times> NelderMead" where
  "iteration_p st0 =
     (let st3 = reflection_p (centroid_p (doIndexes_p st0));
          fr = evalFunc st3 (vr st3);
          st4 = snd (doEvaluate st3 (vr st3));
          (b1, st5) = accept_reflection_p fr st4;
          (b2, st6) = expansion_p fr st5;
          ((b3, b4), st7) = contraction_p fr st6
      in (\<lparr>reflected = b1, expanded = b2, contracted = b3, shrunk = b4\<rparr>, st7))"

definition spread_p :: "NelderMead \<Rightarrow> real" where
  "spread_p st =
     (let favg = fold (\<lambda>j fsum. fsum + f st ! j) [0..<Suc (dim st)] 0 / real (Suc (dim st))
      in sqrt (fold (\<lambda>j s. s + (f st ! j - favg) ^ 2 / real (dim st)) [0..<Suc (dim st)] 0))"

definition exec_finish_p :: "u32 \<Rightarrow> NelderMead \<Rightarrow> NelderMead" where
  "exec_finish_p iterationCount st =
     (let st1 = doIndexes_p st;
          st2 = snd (doEvaluate st1 (v st1 ! vs st1))
      in st2\<lparr>lastExecResults :=
               (lastExecResults st2)\<lparr>res_min := evalFunc st1 (v st1 ! vs st1),
                  res_evalCount := evalCount st2,
                  res_iterationCount := iterationCount,
                  res_minValues := v st2 ! vs st2\<rparr>\<rparr>)"

section \<open>The notions the claims speak about\<close>

text \<open>The value table agrees with the simplex: \<open>f[i]\<close> is the objective at \<open>v[i]\<close>.\<close>

definition synced :: "NelderMead \<Rightarrow> bool" where
  "synced st \<longleftrightarrow> f st = map (evalFunc st) (v st)"

text \<open>
  The states with which the loop of \<open>exec\<close> is at its head: the state in which the loop is
  entered, and the state after every trip whose convergence test did not stop the loop.
\<close>

inductive loop_head :: "real \<Rightarrow> NelderMead \<Rightarrow> u32 \<Rightarrow> NelderMead \<Rightarrow> bool"
  for tolerancee st0 where
  head_first: "loop_head tolerancee st0 0 st0"
| head_next: "loop_head tolerancee st0 it st \<Longrightarrow> it + 1 \<le> configMaxIterations st \<Longrightarrow>
     iteration st = Inr (p, st') \<Longrightarrow> spread st' = Inr s \<Longrightarrow> \<not> s < tolerancee \<Longrightarrow>
     loop_head tolerancee st0 (it + 1) st'"

text \<open>
  The observation points of a run \<open>exec start tolerancee scale st\<close>: the state after the
  initial constrain-and-evaluate pass, and the state at the end of every trip through the
  loop body.
\<close>

definition observed :: "vec \<Rightarrow> real \<Rightarrow> real \<Rightarrow> NelderMead \<Rightarrow> NelderMead \<Rightarrow> bool" where
  "observed start tolerancee scale st s \<longleftrightarrow>
     (\<exists>st1. exec_init start scale st = Inr st1 \<and>
        (s = st1 \<or>
         (\<exists>it sh p. loop_head tolerancee st1 it sh \<and> it + 1 \<le> configMaxIterations sh \<and>
            iteration sh = Inr (p, s))))"

text \<open>The role indices.\<close>

definition roles :: "NelderMead \<Rightarrow> nat \<times> nat \<times> nat" where
  "roles st = (vs st, vh st, vg st)"

text \<open>The objective evaluations of one trip through the loop body, by the branches taken:
  one for the reflection, one for an expansion, one for a contraction, and \<open>n + 3\<close> for a
  shrink.\<close>

definition evals_of :: "nat \<Rightarrow> path \<Rightarrow> nat" where
  "evals_of n p =
     1 + (if expanded p then 1 else 0) + (if contracted p then 1 else 0)
       + (if shrunk p then n + 3 else 0)"

text \<open>The calls a client makes on an instance after its construction, and a sequence of
  them; the sequence stops at the first call that fails or does not return.\<close>

datatype call =
  Exec vec real real
| SetMaxIterations u32
| SetReflectionCoefficient real
| SetContractionCoefficient real
| SetExpansionCoefficient real

fun do_call :: "call \<Rightarrow> NelderMead \<Rightarrow> (failure + NelderMead) option" where
  "do_call (Exec start tolerancee scale) st = exec start tolerancee scale st"
| "do_call (SetMaxIterations inValue) st = Some (Inr (setMaxIterations inValue st))"
| "do_call (SetReflectionCoefficient inValue) st = Some (Inr (setReflectionCoefficient inValue st))"
| "do_call (SetContractionCoefficient inValue) st = Some (Inr (setContractionCoefficient inValue st))"
| "do_call (SetExpansionCoefficient inValue) st = Some (Inr (setExpansionCoefficient inValue st))"

fun do_calls :: "call list \<Rightarrow> NelderMead \<Rightarrow> (failure + NelderMead) option" where
  "do_calls [] st = Some (Inr st)"
| "do_calls (c # cs) st =
     (case do_call c st of
        Some (Inr st') \<Rightarrow> do_calls cs st'
      | r \<Rightarrow> r)"

text \<open>The configuration: the four values the setters write.\<close>

definition configuration :: "NelderMead \<Rightarrow> u32 \<times> real \<times> real \<times> real" where
  "configuration st =
     (configMaxIterations st, configReflectionCoefficient st,
      configContractionCoefficient st, configExpansionCoefficient st)"

text \<open>Two instances with the same dimension, callbacks and configuration.\<close>

definition same_setup :: "NelderMead \<Rightarrow> NelderMead \<Rightarrow> bool" where
  "same_setup a b \<longleftrightarrow>
     size_nm a = size_nm b \<and> evalFunc a = evalFunc b \<and> constrainFunc a = constrainFunc b \<and>
     configuration a = configuration b"

text \<open>Two instances that moreover hold the same simplex, value table, role indices and
  evaluation counter: they may differ in the scratch vectors, in the stored result and in
  the number of objective calls made so far.\<close>

definition same_simplex :: "NelderMead \<Rightarrow> NelderMead \<Rightarrow> bool" where
  "same_simplex a b \<longleftrightarrow>
     same_setup a b \<and> v a = v b \<and> f a = f b \<and> evalCount a = evalCount b \<and>
     vs a = vs b \<and> vh a = vh b \<and> vg a = vg b"

text \<open>Inside a trip, after the centroid and the reflected point have been computed, they
  also hold the same \<open>vm\<close> and \<open>vr\<close>.\<close>

definition same_trial :: "NelderMead \<Rightarrow> NelderMead \<Rightarrow> bool" where
  "same_trial a b \<longleftrightarrow> same_simplex a b \<and> vm a = vm b \<and> vr a = vr b"

text \<open>
  How the loop is left. \<open>left_by tol I r\<close>: the result \<open>r\<close> comes from a loop head
  \<open>(k, s)\<close> at which \<open>I\<close> holds, either because the guard \<open>++iterationCount <= max\<close> failed
  there, or because the trip from there passed the convergence test.
\<close>

definition left_by ::
  "real \<Rightarrow> (u32 \<Rightarrow> NelderMead \<Rightarrow> bool) \<Rightarrow> (failure + u32 \<times> NelderMead) \<Rightarrow> bool" where
  "left_by tol I r \<longleftrightarrow>
     (\<exists>k s. I k s \<and>
        ((\<not> k + 1 \<le> configMaxIterations s \<and> r = Inr (k + 1, s)) \<or>
         (k + 1 \<le> configMaxIterations s \<and> spread_p (snd (iteration_p s)) < tol \<and>
          r = Inr (k + 1, snd (iteration_p s)))))"

text \<open>From state \<open>a\<close> to state \<open>b\<close> the objective was called \<open>k\<close> times, and the counter
  \<open>evalCount\<close> was incremented as often.\<close>

definition adds :: "nat \<Rightarrow> NelderMead \<Rightarrow> NelderMead \<Rightarrow> bool" where
  "adds k a b \<longleftrightarrow> evalCount b = evalCount a + of_nat k \<and> invocations b = invocations a + k"

section \<open>Concrete callbacks and instances\<close>

text \<open>The constraint function of \<^verbatim>\<open>src/example.cpp\<close>: clamp every coordinate to \<open>[-600, 600]\<close>.\<close>

definition myConstraints :: "vec \<Rightarrow> vec" where
  "myConstraints x =
     map (\<lambda>xi. let a = (if xi < - 600 then - 600 else xi) in if a > 600 then 600 else a) x"

text \<open>The objective of the one-dimensional line search of the specification, \<open>(x - 5)\<^sup>2\<close>.\<close>

definition parabola :: "vec \<Rightarrow> real" where
  "parabola x = (case x of [] \<Rightarrow> 0 | a # _ \<Rightarrow> (a - 5) ^ 2)"

text \<open>A cubic with equal values at \<open>0\<close> and \<open>1\<close>: \<open>x (x - 1) (x - 5)\<close>.\<close>

definition cubic :: "vec \<Rightarrow> real" where
  "cubic x = (case x of [] \<Rightarrow> 0 | a # _ \<Rightarrow> a * (a - 1) * (a - 5))"

text \<open>An objective that is \<open>1\<close> at the point \<open>1\<close> and \<open>0\<close> elsewhere.\<close>

definition spike :: "vec \<Rightarrow> real" where
  "spike x = (if x = [1] then 1 else 0)"

text \<open>What the constructor returns for dimension \<open>inSize\<close> when the uninitialised members
  of \<open>lastExecResults\<close> happen to hold zero.\<close>

definition fresh :: "u32 \<Rightarrow> (vec \<Rightarrow> real) \<Rightarrow> (vec \<Rightarrow> vec) option \<Rightarrow> NelderMead" where
  "fresh inSize inEvalFunc inConstrainFunc =
     \<lparr>configMaxIterations = 1000,
      configReflectionCoefficient = 1,
      configContractionCoefficient = 1 / 2,
      configExpansionCoefficient = 2,
      size_nm = inSize,
      evalFunc = inEvalFunc,
      constrainFunc = inConstrainFunc,
      v = replicate (unat (inSize + 1)) (replicate (unat inSize) 0),
      f = replicate (unat (inSize + 1)) 0,
      vr = replicate (unat inSize) 0,
      ve = replicate (unat inSize) 0,
      vc = replicate (unat inSize) 0,
      vm = replicate (unat inSize) 0,
      evalCount = 0,
      vs = 0, vh = 0, vg = 0,
      lastExecResults = \<lparr>res_iterationCount = 0, res_evalCount = 0, res_minValues = [],
                          res_min = 0\<rparr>,
      invocations = 0\<rparr>"

text \<open>A constant objective.\<close>

definition flat :: "vec \<Rightarrow> real" where
  "flat x = 0"

section \<open>What a caller or an observer sees of a run\<close>

text \<open>Of a finished run: the reported \<open>iterationCount\<close>, the reported \<open>evalCount\<close>, and the
  calls of the objective made so far.\<close>

definition run_report :: "(failure + NelderMead) option \<Rightarrow> (failure + u32 \<times> u32 \<times> nat) option" where
  "run_report r =
     map_option (map_sum id (\<lambda>st. (res_iterationCount (getLastExecResults st),
                                   res_evalCount (getLastExecResults st),
                                   invocations st))) r"

text \<open>Of the first trip of a run: the value table at its head, the role indices computed
  from it, the branches taken, and the simplex and the value table it leaves.\<close>

definition first_trip ::
  "vec \<Rightarrow> real \<Rightarrow> NelderMead \<Rightarrow> failure + vec \<times> (nat \<times> nat \<times> nat) \<times> path \<times> vec list \<times> vec" where
  "first_trip start scale st =
     andThen (exec_init start scale st) (\<lambda>s.
     andThen (doIndexes s) (\<lambda>s1.
     andThen (iteration s) (\<lambda>(p, s'). Inr (f s, roles s1, p, v s', f s'))))"

text \<open>The value table and the role indices computed from it, at the first and at the
  second recomputation of a run.\<close>

definition first_roles :: "vec \<Rightarrow> real \<Rightarrow> NelderMead \<Rightarrow> failure + vec \<times> (nat \<times> nat \<times> nat)" where
  "first_roles start scale st =
     andThen (exec_init start scale st) (\<lambda>s.
     andThen (doIndexes s) (\<lambda>s1. Inr (f s, roles s1)))"

definition second_roles :: "vec \<Rightarrow> real \<Rightarrow> NelderMead \<Rightarrow> failure + vec \<times> (nat \<times> nat \<times> nat)" where
  "second_roles start scale st =
     andThen (exec_init start scale st) (\<lambda>s.
     andThen (iteration s) (\<lambda>(p, s').
     andThen (doIndexes s') (\<lambda>s1. Inr (f s', roles s1))))"
section \<open>The same code over the range of binary64\<close>

text \<open>
  The embedding above reads \<^verbatim>\<open>double\<close> as \<open>real\<close>: no rounding and no overflow. That is
  adequate where a claim is about which slot is written with which value. Whether the
  simplex stays inside a box is not such a claim: the shrink step writes
  \<^verbatim>\<open>v[vs][j] + (v[row][j] - v[vs][j]) / 2.0\<close> without constraining it again, and the
  difference of two doubles can leave the range of the type. This section embeds the same
  code a second time, line by line as above, over values that have the range of binary64:
  a result whose magnitude reaches the overflow threshold of round-to-nearest,
  \<open>2\<^sup>1\<^sup>0\<^sup>2\<^sup>4 - 2\<^sup>9\<^sup>7\<^sup>0\<close>, is an infinity, and an invalid operation gives NaN. The rounding
  of the results that stay in range is not modelled, nor is the sign of zero, which only a
  division by zero can observe.
\<close>

subsection \<open>Values and arithmetic\<close>

datatype double = Num real | PosInf | NegInf | NaN

definition overflow_threshold :: real where
  "overflow_threshold = 2 ^ 1024 - 2 ^ 970"

text \<open>The value delivered for an exact result.\<close>

definition deliver :: "real \<Rightarrow> double" where
  "deliver x = (if overflow_threshold \<le> x then PosInf
                else if x \<le> - overflow_threshold then NegInf else Num x)"

fun add_d :: "double \<Rightarrow> double \<Rightarrow> double" where
  "add_d (Num a) (Num b) = deliver (a + b)"
| "add_d NaN b = NaN"
| "add_d a NaN = NaN"
| "add_d PosInf NegInf = NaN"
| "add_d NegInf PosInf = NaN"
| "add_d PosInf b = PosInf"
| "add_d a PosInf = PosInf"
| "add_d NegInf b = NegInf"
| "add_d a NegInf = NegInf"

fun neg_d :: "double \<Rightarrow> double" where
  "neg_d (Num a) = Num (- a)"
| "neg_d PosInf = NegInf"
| "neg_d NegInf = PosInf"
| "neg_d NaN = NaN"

fun mul_d :: "double \<Rightarrow> double \<Rightarrow> double" where
  "mul_d (Num a) (Num b) = deliver (a * b)"
| "mul_d NaN b = NaN"
| "mul_d a NaN = NaN"
| "mul_d (Num a) PosInf = (if a = 0 then NaN else if 0 < a then PosInf else NegInf)"
| "mul_d (Num a) NegInf = (if a = 0 then NaN else if 0 < a then NegInf else PosInf)"
| "mul_d PosInf (Num b) = (if b = 0 then NaN else if 0 < b then PosInf else NegInf)"
| "mul_d NegInf (Num b) = (if b = 0 then NaN else if 0 < b then NegInf else PosInf)"
| "mul_d PosInf PosInf = PosInf"
| "mul_d PosInf NegInf = NegInf"
| "mul_d NegInf PosInf = NegInf"
| "mul_d NegInf NegInf = PosInf"

fun div_d :: "double \<Rightarrow> double \<Rightarrow> double" where
  "div_d (Num a) (Num b) =
     (if b = 0 then (if a = 0 then NaN else if 0 < a then PosInf else NegInf)
      else deliver (a / b))"
| "div_d NaN b = NaN"
| "div_d a NaN = NaN"
| "div_d (Num a) b = Num 0"
| "div_d PosInf (Num b) = (if 0 \<le> b then PosInf else NegInf)"
| "div_d NegInf (Num b) = (if 0 \<le> b then NegInf else PosInf)"
| "div_d a b = NaN"

fun less_d :: "double \<Rightarrow> double \<Rightarrow> bool" where
  "less_d (Num a) (Num b) = (a < b)"
| "less_d NegInf (Num b) = True"
| "less_d NegInf PosInf = True"
| "less_d (Num a) PosInf = True"
| "less_d a b = False"

instantiation double :: "{plus, minus, times, inverse, ord}"
begin

definition plus_double :: "double \<Rightarrow> double \<Rightarrow> double" where
  "plus_double a b = add_d a b"

definition minus_double :: "double \<Rightarrow> double \<Rightarrow> double" where
  "minus_double a b = add_d a (neg_d b)"

definition times_double :: "double \<Rightarrow> double \<Rightarrow> double" where
  "times_double a b = mul_d a b"

definition divide_double :: "double \<Rightarrow> double \<Rightarrow> double" where
  "divide_double a b = div_d a b"

definition inverse_double :: "double \<Rightarrow> double" where
  "inverse_double a = div_d (Num 1) a"

definition less_double :: "double \<Rightarrow> double \<Rightarrow> bool" where
  "less_double a b = less_d a b"

definition less_eq_double :: "double \<Rightarrow> double \<Rightarrow> bool" where
  "less_eq_double a b \<longleftrightarrow> less_d a b \<or> (a = b \<and> a \<noteq> NaN)"

instance ..

end

text \<open>\<^verbatim>\<open>sqrt\<close>, \<^verbatim>\<open>pow(x, 2.0)\<close>, and the conversion of a \<^verbatim>\<open>uint32_t\<close>.\<close>

fun sqrt_d :: "double \<Rightarrow> double" where
  "sqrt_d (Num a) = (if a < 0 then NaN else Num (sqrt a))"
| "sqrt_d PosInf = PosInf"
| "sqrt_d a = NaN"

definition pow2_d :: "double \<Rightarrow> double" where
  "pow2_d a = a * a"

definition of_u32 :: "u32 \<Rightarrow> double" where
  "of_u32 n = Num (real (unat n))"

subsection \<open>The data of nm.h\<close>

type_synonym vec_d = "double list"

record NelderMeadResults_d =
  res_iterationCount_d :: u32
  res_evalCount_d :: u32
  res_minValues_d :: vec_d
  res_min_d :: double

record NelderMead_d =
  configMaxIterations_d :: u32
  configReflectionCoefficient_d :: double
  configContractionCoefficient_d :: double
  configExpansionCoefficient_d :: double
  size_nm_d :: u32
  evalFunc_d :: "vec_d \<Rightarrow> double"
  constrainFunc_d :: "(vec_d \<Rightarrow> vec_d) option"
  v_d :: "vec_d list"
  f_d :: vec_d
  vr_d :: vec_d
  ve_d :: vec_d
  vc_d :: vec_d
  vm_d :: vec_d
  evalCount_d :: u32
  vs_d :: nat
  vh_d :: nat
  vg_d :: nat
  lastExecResults_d :: NelderMeadResults_d

subsection \<open>doEvaluate\<close>

text \<open>\<^verbatim>\<open>doEvaluate\<close>: count the call, then call the objective.\<close>

definition doEvaluate_d :: "NelderMead_d \<Rightarrow> vec_d \<Rightarrow> double \<times> NelderMead_d" where
  "doEvaluate_d st x =
     (evalFunc_d st x, st\<lparr>evalCount_d := evalCount_d st + 1\<rparr>)"

subsection \<open>doInitialize\<close>

definition doInitialize_d :: "vec_d \<Rightarrow> double \<Rightarrow> NelderMead_d \<Rightarrow> failure + NelderMead_d" where
  "doInitialize_d start scale st =
     (let n = size_nm_d st;
          pn = scale * (sqrt_d (of_u32 (n + 1)) - Num 1 + of_u32 n) / (of_u32 n * sqrt_d (Num 2));
          qn = scale * (sqrt_d (of_u32 (n + 1)) - Num 1) / (of_u32 n * sqrt_d (Num 2))
      in andThen (for_lt n (\<lambda>i w. andThen (rd start i) (\<lambda>x. wr2 w 0 i x)) (v_d st))
        (\<lambda>w0. andThen
           (for_le 1 n (\<lambda>i w.
              for_lt n (\<lambda>j w.
                andThen (if i - 1 = j
                         then andThen (rd start j) (\<lambda>x. Inr (pn + x))
                         else andThen (rd start j) (\<lambda>x. Inr (qn + x)))
                  (\<lambda>y. wr2 w i j y)) w) w0)
        (\<lambda>w1. Inr (st\<lparr>evalCount_d := 0, vs_d := 0, vh_d := 0, vg_d := 0, v_d := w1\<rparr>))))"

subsection \<open>doIndexes\<close>

definition doIndexes_d :: "NelderMead_d \<Rightarrow> failure + NelderMead_d" where
  "doIndexes_d st0 =
     (let st = st0\<lparr>vh_d := vs_d st0\<rparr> in
      andThen
        (for_le 0 (size_nm_d st) (\<lambda>j (g, s).
           andThen (rd (f_d st) j) (\<lambda>fj. andThen (rd (f_d st) g) (\<lambda>fg.
             let g' = (if fj > fg then j else g) in
             andThen (rd (f_d st) j) (\<lambda>fj. andThen (rd (f_d st) s) (\<lambda>fs.
               Inr (g', if fj < fs then j else s))))))
           (vg_d st, vs_d st))
        (\<lambda>(g, s). andThen
           (for_le 0 (size_nm_d st) (\<lambda>j h.
              andThen (rd (f_d st) j) (\<lambda>fj. andThen (rd (f_d st) h) (\<lambda>fh.
                if fj > fh
                then andThen (rd (f_d st) j) (\<lambda>fj. andThen (rd (f_d st) g) (\<lambda>fg.
                       Inr (if fj < fg then j else h)))
                else Inr h)))
              s)
           (\<lambda>h. Inr (st\<lparr>vs_d := s, vh_d := h, vg_d := g\<rparr>))))"

subsection \<open>The blocks of exec\<close>

text \<open>\<^verbatim>\<open>if (constrainFunc) constrainFunc(x)\<close> on a scratch vector.\<close>

definition constrain_d :: "NelderMead_d \<Rightarrow> vec_d \<Rightarrow> vec_d" where
  "constrain_d st x = (case constrainFunc_d st of None \<Rightarrow> x | Some c \<Rightarrow> c x)"

text \<open>\<^verbatim>\<open>if (constrainFunc != NULL) constrainFunc(v[i])\<close>: the row is touched only when there is
  a constraint function.\<close>

definition constrain_row_d :: "NelderMead_d \<Rightarrow> nat \<Rightarrow> vec_d list \<Rightarrow> failure + vec_d list" where
  "constrain_row_d st i w = (case constrainFunc_d st of None \<Rightarrow> Inr w | Some c \<Rightarrow> upd w i c)"

text \<open>Lines 126-130: constrain every vertex of the fresh simplex.\<close>

definition constrain_all_d :: "NelderMead_d \<Rightarrow> failure + NelderMead_d" where
  "constrain_all_d st =
     (case constrainFunc_d st of
        None \<Rightarrow> Inr st
      | Some c \<Rightarrow> andThen (for_le 0 (size_nm_d st) (\<lambda>j w. upd w j c) (v_d st))
                    (\<lambda>w. Inr (st\<lparr>v_d := w\<rparr>)))"

text \<open>Lines 133-135 and 247-249: \<^verbatim>\<open>f[j] = doEvaluate(v[j])\<close> for every vertex.\<close>

definition evaluate_all_d :: "NelderMead_d \<Rightarrow> failure + NelderMead_d" where
  "evaluate_all_d st =
     for_le 0 (size_nm_d st) (\<lambda>j s.
       andThen (rd (v_d s) j) (\<lambda>x.
         case doEvaluate_d s x of (y, s') \<Rightarrow>
           andThen (wr (f_d s') j y) (\<lambda>g. Inr (s'\<lparr>f_d := g\<rparr>)))) st"

text \<open>Lines 122-135: the state in which the loop is entered.\<close>

definition exec_init_d :: "vec_d \<Rightarrow> double \<Rightarrow> NelderMead_d \<Rightarrow> failure + NelderMead_d" where
  "exec_init_d start scale st =
     andThen (doInitialize_d start scale st) (\<lambda>st1.
     andThen (constrain_all_d st1) evaluate_all_d)"

text \<open>Lines 151-160: the centroid of all vertices but \<open>vg\<close>.\<close>

definition centroid_d :: "NelderMead_d \<Rightarrow> failure + NelderMead_d" where
  "centroid_d st =
     andThen
       (for_le 0 (size_nm_d st - 1) (\<lambda>j m.
          andThen
            (for_le 0 (size_nm_d st) (\<lambda>k cent.
               if k \<noteq> vg_d st then andThen (rd2 (v_d st) k j) (\<lambda>x. Inr (cent + x)) else Inr cent)
               (Num 0))
            (\<lambda>cent. wr m j (cent / of_u32 (size_nm_d st))))
          (vm_d st))
       (\<lambda>m. Inr (st\<lparr>vm_d := m\<rparr>))"

text \<open>Lines 163-168: reflect \<open>vg\<close> through the centroid and constrain the result.\<close>

definition reflection_d :: "NelderMead_d \<Rightarrow> failure + NelderMead_d" where
  "reflection_d st =
     andThen
       (for_le 0 (size_nm_d st - 1) (\<lambda>j r.
          andThen
            (andThen (rd (vm_d st) j) (\<lambda>m. andThen (rd (vm_d st) j) (\<lambda>m'.
               andThen (rd2 (v_d st) (vg_d st) j) (\<lambda>x.
                 Inr (m + configReflectionCoefficient_d st * (m' - x))))))
            (\<lambda>y. wr r j y))
          (vr_d st))
       (\<lambda>r. Inr (st\<lparr>vr_d := constrain_d st r\<rparr>))"

text \<open>
  The four places that copy a candidate into the worst vertex and store its value
  (lines 173-176, 190-193, 196-199, 228-231):
  \<^verbatim>\<open>for (j = 0; j <= size - 1; j++) v[vg][j] = x[j];  f[vg] = fx;\<close>
\<close>

definition accept_d :: "vec_d \<Rightarrow> double \<Rightarrow> NelderMead_d \<Rightarrow> failure + NelderMead_d" where
  "accept_d x fx st =
     andThen
       (for_le 0 (size_nm_d st - 1) (\<lambda>j w. andThen (rd x j) (\<lambda>y. wr2 w (vg_d st) j y)) (v_d st))
       (\<lambda>w. andThen (wr (f_d st) (vg_d st) fx) (\<lambda>g. Inr (st\<lparr>v_d := w, f_d := g\<rparr>)))"

text \<open>Lines 172-177. The flag tells whether the branch was entered.\<close>

definition accept_reflection_d :: "double \<Rightarrow> NelderMead_d \<Rightarrow> failure + bool \<times> NelderMead_d" where
  "accept_reflection_d fr st =
     andThen (rd (f_d st) (vh_d st)) (\<lambda>fh.
       andThen (if fr < fh then andThen (rd (f_d st) (vs_d st)) (\<lambda>fs. Inr (fr \<ge> fs)) else Inr False)
         (\<lambda>c. if c then andThen (accept_d (vr_d st) fr st) (\<lambda>st'. Inr (True, st'))
              else Inr (False, st)))"

text \<open>Lines 180-201.\<close>

definition expansion_d :: "double \<Rightarrow> NelderMead_d \<Rightarrow> failure + bool \<times> NelderMead_d" where
  "expansion_d fr st =
     andThen (rd (f_d st) (vs_d st)) (\<lambda>fs.
       if fr < fs then
         andThen
           (for_le 0 (size_nm_d st - 1) (\<lambda>j e.
              andThen
                (andThen (rd (vm_d st) j) (\<lambda>m. andThen (rd (vr_d st) j) (\<lambda>r.
                   andThen (rd (vm_d st) j) (\<lambda>m'.
                     Inr (m + configExpansionCoefficient_d st * (r - m'))))))
                (\<lambda>y. wr e j y))
              (ve_d st))
           (\<lambda>e. let st1 = st\<lparr>ve_d := constrain_d st e\<rparr> in
                case doEvaluate_d st1 (ve_d st1) of (fe, st2) \<Rightarrow>
                  andThen (if fe < fr then accept_d (ve_d st2) fe st2 else accept_d (vr_d st2) fr st2)
                    (\<lambda>st3. Inr (True, st3)))
       else Inr (False, st))"

text \<open>
  Lines 254-257 and 258-261, the same three statements for \<open>vg\<close> and for \<open>vh\<close>:
  \<^verbatim>\<open>if (constrainFunc != NULL) constrainFunc(v[i]);  f[i] = doEvaluate(v[i]);\<close>
\<close>

definition reevaluate_d :: "nat \<Rightarrow> NelderMead_d \<Rightarrow> failure + NelderMead_d" where
  "reevaluate_d i st =
     andThen (constrain_row_d st i (v_d st)) (\<lambda>w.
       andThen (rd w i) (\<lambda>x.
         case doEvaluate_d (st\<lparr>v_d := w\<rparr>) x of (y, st') \<Rightarrow>
           andThen (wr (f_d st') i y) (\<lambda>g. Inr (st'\<lparr>f_d := g\<rparr>))))"

text \<open>Lines 238-261: halve the distance of every vertex to \<open>vs\<close>, evaluate all vertices,
  find the indices again, then constrain and evaluate the vertices \<open>vg\<close> and \<open>vh\<close>.\<close>

definition shrink_d :: "NelderMead_d \<Rightarrow> failure + NelderMead_d" where
  "shrink_d st =
     andThen
       (for_le 0 (size_nm_d st) (\<lambda>row w.
          if row \<noteq> vs_d st
          then for_le 0 (size_nm_d st - 1) (\<lambda>j w.
                 andThen
                   (andThen (rd2 w (vs_d st) j) (\<lambda>a. andThen (rd2 w row j) (\<lambda>b.
                      andThen (rd2 w (vs_d st) j) (\<lambda>a'. Inr (a + (b - a') / Num 2)))))
                   (\<lambda>y. wr2 w row j y)) w
          else Inr w)
          (v_d st))
       (\<lambda>w. andThen (evaluate_all_d (st\<lparr>v_d := w\<rparr>)) (\<lambda>st1.
          andThen (doIndexes_d st1) (\<lambda>st2.
            andThen (reevaluate_d (vg_d st2) st2) (\<lambda>st4.
              reevaluate_d (vh_d st4) st4))))"

text \<open>Lines 204-263. The flags tell whether the branch was entered and whether it shrank.\<close>

definition contraction_d :: "double \<Rightarrow> NelderMead_d \<Rightarrow> failure + (bool \<times> bool) \<times> NelderMead_d" where
  "contraction_d fr st =
     andThen (rd (f_d st) (vh_d st)) (\<lambda>fh.
       if fr \<ge> fh then
         andThen (rd (f_d st) (vg_d st)) (\<lambda>fg.
         andThen (if fr < fg then andThen (rd (f_d st) (vh_d st)) (\<lambda>fh'. Inr (fr \<ge> fh')) else Inr False)
           (\<lambda>outside.
         andThen
           (if outside
            then for_le 0 (size_nm_d st - 1) (\<lambda>j c.
                   andThen
                     (andThen (rd (vm_d st) j) (\<lambda>m. andThen (rd (vr_d st) j) (\<lambda>r.
                        andThen (rd (vm_d st) j) (\<lambda>m'.
                          Inr (m + configContractionCoefficient_d st * (r - m'))))))
                     (\<lambda>y. wr c j y))
                   (vc_d st)
            else for_le 0 (size_nm_d st - 1) (\<lambda>j c.
                   andThen
                     (andThen (rd (vm_d st) j) (\<lambda>m. andThen (rd (vm_d st) j) (\<lambda>m'.
                        andThen (rd2 (v_d st) (vg_d st) j) (\<lambda>x.
                          Inr (m - configContractionCoefficient_d st * (m' - x))))))
                     (\<lambda>y. wr c j y))
                   (vc_d st))
           (\<lambda>c. let st1 = st\<lparr>vc_d := constrain_d st c\<rparr> in
                case doEvaluate_d st1 (vc_d st1) of (fc, st2) \<Rightarrow>
                  andThen (rd (f_d st2) (vg_d st2)) (\<lambda>fg'.
                    if fc < fg'
                    then andThen (accept_d (vc_d st2) fc st2) (\<lambda>st3. Inr ((True, False), st3))
                    else andThen (shrink_d st2) (\<lambda>st3. Inr ((True, True), st3))))))
       else Inr ((False, False), st))"

text \<open>Lines 148-263: one trip through the loop body, up to the convergence test.\<close>

definition iteration_d :: "NelderMead_d \<Rightarrow> failure + path \<times> NelderMead_d" where
  "iteration_d st0 =
     andThen (doIndexes_d st0) (\<lambda>st1.
     andThen (centroid_d st1) (\<lambda>st2.
     andThen (reflection_d st2) (\<lambda>st3.
       case doEvaluate_d st3 (vr_d st3) of (fr, st4) \<Rightarrow>
         andThen (accept_reflection_d fr st4) (\<lambda>(b1, st5).
         andThen (expansion_d fr st5) (\<lambda>(b2, st6).
         andThen (contraction_d fr st6) (\<lambda>((b3, b4), st7).
           Inr (\<lparr>reflected = b1, expanded = b2, contracted = b3, shrunk = b4\<rparr>, st7)))))))"

text \<open>Lines 271-280: the statistic of the convergence test.\<close>

definition spread_d :: "NelderMead_d \<Rightarrow> failure + double" where
  "spread_d st =
     andThen (for_le 0 (size_nm_d st) (\<lambda>j fsum. andThen (rd (f_d st) j) (\<lambda>x. Inr (fsum + x))) (Num 0))
       (\<lambda>fsum.
          let favg = fsum / of_u32 (size_nm_d st + 1) in
          andThen
            (for_le 0 (size_nm_d st) (\<lambda>j s.
               andThen (rd (f_d st) j) (\<lambda>x. Inr (s + pow2_d (x - favg) / of_u32 (size_nm_d st))))
               (Num 0))
            (\<lambda>s. Inr (sqrt_d s)))"

text \<open>
  Lines 143-285: \<^verbatim>\<open>while (++iterationCount <= configMaxIterations) { ...; if (s < tolerancee) break; }\<close>.
  The result is the counter and the state with which the loop is left; \<open>None\<close> is a loop
  that never ends.
\<close>

partial_function (option) exec_loop_d ::
  "double \<Rightarrow> u32 \<Rightarrow> NelderMead_d \<Rightarrow> (failure + u32 \<times> NelderMead_d) option" where
  "exec_loop_d tolerancee iterationCount st =
     (let it = iterationCount + 1 in
      if it \<le> configMaxIterations_d st then
        (case iteration_d st of
           Inl e \<Rightarrow> Some (Inl e)
         | Inr (p, st') \<Rightarrow>
             (case spread_d st' of
                Inl e \<Rightarrow> Some (Inl e)
              | Inr s \<Rightarrow> if s < tolerancee then Some (Inr (it, st'))
                         else exec_loop_d tolerancee it st'))
      else Some (Inr (it, st)))"

text \<open>Lines 288-297: the result of the run.\<close>

definition exec_finish_d :: "u32 \<Rightarrow> NelderMead_d \<Rightarrow> failure + NelderMead_d" where
  "exec_finish_d iterationCount st =
     andThen (doIndexes_d st) (\<lambda>st1.
     andThen (rd (v_d st1) (vs_d st1)) (\<lambda>x.
       case doEvaluate_d st1 x of (m, st2) \<Rightarrow>
         let r = (lastExecResults_d st2)\<lparr>res_min_d := m, res_evalCount_d := evalCount_d st2,
                   res_iterationCount_d := iterationCount, res_minValues_d := []\<rparr> in
         andThen
           (for_lt (size_nm_d st2) (\<lambda>j mv. andThen (rd2 (v_d st2) (vs_d st2) j) (\<lambda>y. Inr (mv @ [y])))
              (res_minValues_d r))
           (\<lambda>mv. Inr (st2\<lparr>lastExecResults_d := r\<lparr>res_minValues_d := mv\<rparr>\<rparr>))))"

definition exec_d :: "vec_d \<Rightarrow> double \<Rightarrow> double \<Rightarrow> NelderMead_d \<Rightarrow> (failure + NelderMead_d) option" where
  "exec_d start tolerancee scale st =
     (case exec_init_d start scale st of
        Inl e \<Rightarrow> Some (Inl e)
      | Inr st1 \<Rightarrow>
          (case exec_loop_d tolerancee 0 st1 of
             None \<Rightarrow> None
           | Some (Inl e) \<Rightarrow> Some (Inl e)
           | Some (Inr (it, st2)) \<Rightarrow> Some (exec_finish_d it st2)))"

subsection \<open>The box, and the points at which a run is observed\<close>

text \<open>Every coordinate of a vector is a number in \<open>[lo, hi]\<close>.\<close>

definition boxed_d :: "real \<Rightarrow> real \<Rightarrow> vec_d \<Rightarrow> bool" where
  "boxed_d lo hi x \<longleftrightarrow> (\<forall>a \<in> set x. Num lo \<le> a \<and> a \<le> Num hi)"

text \<open>Every coordinate of every vertex of the simplex is a number in \<open>[lo, hi]\<close>.\<close>

definition in_box_d :: "real \<Rightarrow> real \<Rightarrow> NelderMead_d \<Rightarrow> bool" where
  "in_box_d lo hi st \<longleftrightarrow> (\<forall>x \<in> set (v_d st). boxed_d lo hi x)"

text \<open>The invariant of a run with the constraint function \<open>c\<close>: the constraint function
  stays \<open>c\<close>, the simplex keeps its \<open>n\<close> vertices, and they are in the box.\<close>

definition box_inv :: "(vec_d \<Rightarrow> vec_d) \<Rightarrow> nat \<Rightarrow> real \<Rightarrow> real \<Rightarrow> NelderMead_d \<Rightarrow> bool" where
  "box_inv c n lo hi st \<longleftrightarrow>
     constrainFunc_d st = Some c \<and> length (v_d st) = n \<and> in_box_d lo hi st"

text \<open>The loop heads and the observation points of a run, as for the first embedding.\<close>

inductive loop_head_d :: "double \<Rightarrow> NelderMead_d \<Rightarrow> u32 \<Rightarrow> NelderMead_d \<Rightarrow> bool"
  for tolerancee st0 where
  head_first_d: "loop_head_d tolerancee st0 0 st0"
| head_next_d: "loop_head_d tolerancee st0 it st \<Longrightarrow> it + 1 \<le> configMaxIterations_d st \<Longrightarrow>
     iteration_d st = Inr (p, st') \<Longrightarrow> spread_d st' = Inr s \<Longrightarrow> \<not> s < tolerancee \<Longrightarrow>
     loop_head_d tolerancee st0 (it + 1) st'"

definition observed_d :: "vec_d \<Rightarrow> double \<Rightarrow> double \<Rightarrow> NelderMead_d \<Rightarrow> NelderMead_d \<Rightarrow> bool" where
  "observed_d start tolerancee scale st s \<longleftrightarrow>
     (\<exists>st1. exec_init_d start scale st = Inr st1 \<and>
        (s = st1 \<or>
         (\<exists>it sh p. loop_head_d tolerancee st1 it sh \<and> it + 1 \<le> configMaxIterations_d sh \<and>
            iteration_d sh = Inr (p, s))))"

subsection \<open>Concrete callbacks and instances\<close>

text \<open>A clamp to \<open>[lo, hi]\<close> written as \<^verbatim>\<open>xi = fmax(lo, fmin(xi, hi))\<close>; \<^verbatim>\<open>fmin\<close> and \<^verbatim>\<open>fmax\<close>
  return the other argument when one is NaN, so this clamp also puts NaN into the interval.\<close>

definition fmin_d :: "double \<Rightarrow> double \<Rightarrow> double" where
  "fmin_d a b = (if a = NaN then b else if b = NaN then a else if a < b then a else b)"

definition fmax_d :: "double \<Rightarrow> double \<Rightarrow> double" where
  "fmax_d a b = (if a = NaN then b else if b = NaN then a else if a < b then b else a)"

definition clamp_d :: "real \<Rightarrow> real \<Rightarrow> vec_d \<Rightarrow> vec_d" where
  "clamp_d lo hi x = map (\<lambda>xi. fmax_d (Num lo) (fmin_d xi (Num hi))) x"

text \<open>A constant objective.\<close>

definition flat_d :: "vec_d \<Rightarrow> double" where
  "flat_d x = Num 0"

text \<open>What the constructor returns for dimension one, with the default configuration of
  \<^verbatim>\<open>nm.h\<close>, when the uninitialised members of \<open>lastExecResults\<close> happen to hold zero.\<close>

definition line_d :: "(vec_d \<Rightarrow> double) \<Rightarrow> (vec_d \<Rightarrow> vec_d) option \<Rightarrow> NelderMead_d" where
  "line_d inEvalFunc inConstrainFunc =
     \<lparr>configMaxIterations_d = 1000,
      configReflectionCoefficient_d = Num 1,
      configContractionCoefficient_d = Num (1 / 2),
      configExpansionCoefficient_d = Num 2,
      size_nm_d = 1,
      evalFunc_d = inEvalFunc,
      constrainFunc_d = inConstrainFunc,
      v_d = [[Num 0], [Num 0]],
      f_d = [Num 0, Num 0],
      vr_d = [Num 0],
      ve_d = [Num 0],
      vc_d = [Num 0],
      vm_d = [Num 0],
      evalCount_d = 0,
      vs_d = 0, vh_d = 0, vg_d = 0,
      lastExecResults_d = \<lparr>res_iterationCount_d = 0, res_evalCount_d = 0, res_minValues_d = [],
                            res_min_d = Num 0\<rparr>\<rparr>"

text \<open>Of the first trip of a run: the simplex with which the loop is entered, the branches
  taken, and the simplex the trip leaves.\<close>

definition first_trip_d :: "vec_d \<Rightarrow> double \<Rightarrow> NelderMead_d \<Rightarrow> failure + vec_d list \<times> path \<times> vec_d list" where
  "first_trip_d start scale st =
     andThen (exec_init_d start scale st) (\<lambda>s.
     andThen (iteration_d s) (\<lambda>(p, s'). Inr (v_d s, p, v_d s')))"


section \<open>Basic facts about the checked operations and the loops\<close>

lemma andThen_Inr [simp]: "andThen (Inr x) k = k x"
  by (simp add: andThen_def)

lemma andThen_Inl [simp]: "andThen (Inl e) k = Inl e"
  by (simp add: andThen_def)

lemma rd_in [simp]: "i < length xs \<Longrightarrow> rd xs i = Inr (xs ! i)"
  by (simp add: rd_def)

lemma wr_in [simp]: "i < length xs \<Longrightarrow> wr xs i x = Inr (xs[i := x])"
  by (simp add: wr_def)

lemma rd2_in [simp]: "i < length w \<Longrightarrow> j < length (w ! i) \<Longrightarrow> rd2 w i j = Inr (w ! i ! j)"
  by (simp add: rd2_def)

lemma wr2_in [simp]:
  "i < length w \<Longrightarrow> j < length (w ! i) \<Longrightarrow> wr2 w i j x = Inr (w[i := (w ! i)[j := x]])"
  by (simp add: wr2_def)

lemma upd_in [simp]: "i < length xs \<Longrightarrow> upd xs i g = Inr (xs[i := g (xs ! i)])"
  by (simp add: upd_def)

lemma for_each_append:
  "for_each (xs @ ys) body s = andThen (for_each xs body s) (for_each ys body)"
  by (induction xs arbitrary: s) (auto split: sum.splits)

lemma for_each_upt_eq:
  assumes "lo \<le> hi"
    and "\<And>j. lo \<le> j \<Longrightarrow> j < hi \<Longrightarrow> body j (g j) = Inr (g (Suc j))"
  shows "for_each [lo..<hi] body (g lo) = Inr (g hi)"
  using assms
proof (induction hi)
  case 0
  then show ?case by simp
next
  case (Suc k)
  show ?case
  proof (cases "lo = Suc k")
    case True
    then show ?thesis by simp
  next
    case False
    with Suc.prems have le: "lo \<le> k" by simp
    have "for_each [lo..<k] body (g lo) = Inr (g k)"
      using Suc.IH [OF le] Suc.prems(2) by simp
    then show ?thesis
      using le Suc.prems(2) [of k] by (simp add: for_each_append)
  qed
qed

lemma for_each_fold:
  assumes "I s"
    and "\<And>j s. j \<in> set js \<Longrightarrow> I s \<Longrightarrow> body j s = Inr (g j s) \<and> I (g j s)"
  shows "for_each js body s = Inr (fold g js s) \<and> I (fold g js s)"
  using assms by (induction js arbitrary: s) auto

lemma fill_step:
  "j < length xs \<Longrightarrow>
   (map h [0..<j] @ drop j xs)[j := h j] = map h [0..<Suc j] @ drop (Suc j) xs"
proof -
  assume j: "j < length xs"
  then have "drop j xs = xs ! j # drop (Suc j) xs"
    by (simp add: Cons_nth_drop_Suc)
  then show ?thesis
    by (simp add: list_update_append)
qed

lemma fill_vec_gen:
  assumes "n \<le> length xs"
    and "\<And>j. j < n \<Longrightarrow> val j (map h [0..<j] @ drop j xs) = Inr (a j)"
    and "\<And>j. j < n \<Longrightarrow> k j (a j) = h j"
  shows "for_each [0..<n] (\<lambda>j r. andThen (val j r) (\<lambda>y. wr r j (k j y))) xs
         = Inr (map h [0..<n] @ drop n xs)"
proof -
  let ?g = "\<lambda>j. map h [0..<j] @ drop j xs"
  have "for_each [0..<n] (\<lambda>j r. andThen (val j r) (\<lambda>y. wr r j (k j y))) (?g 0) = Inr (?g n)"
  proof (rule for_each_upt_eq)
    fix j assume "j < n"
    with assms show "andThen (val j (?g j)) (\<lambda>y. wr (?g j) j (k j y)) = Inr (?g (Suc j))"
      using fill_step [of j xs h] by simp
  qed simp
  then show ?thesis by simp
qed

lemma fill_vec:
  assumes "n \<le> length xs"
    and "\<And>j. j < n \<Longrightarrow> val j (map h [0..<j] @ drop j xs) = Inr (h j)"
  shows "for_each [0..<n] (\<lambda>j r. andThen (val j r) (\<lambda>y. wr r j y)) xs
         = Inr (map h [0..<n] @ drop n xs)"
  using fill_vec_gen [of n xs val h h "\<lambda>j y. y"] assms by simp

lemma fill_row:
  assumes "i < length w" "n \<le> length (w ! i)"
    and "\<And>j. j < n \<Longrightarrow> val j (w[i := map h [0..<j] @ drop j (w ! i)]) = Inr (h j)"
  shows "for_each [0..<n] (\<lambda>j w. andThen (val j w) (\<lambda>y. wr2 w i j y)) w
         = Inr (w[i := map h [0..<n] @ drop n (w ! i)])"
proof -
  let ?g = "\<lambda>j. w[i := map h [0..<j] @ drop j (w ! i)]"
  have "for_each [0..<n] (\<lambda>j w. andThen (val j w) (\<lambda>y. wr2 w i j y)) (?g 0) = Inr (?g n)"
  proof (rule for_each_upt_eq)
    fix j assume "j < n"
    with assms show "andThen (val j (?g j)) (\<lambda>y. wr2 (?g j) i j y) = Inr (?g (Suc j))"
      using fill_step [of j "w ! i" h] by simp
  qed simp
  then show ?thesis by simp
qed

lemma map_nth_upt: "map (\<lambda>i. g (xs ! i)) [0..<length xs] = map g xs"
  by (rule nth_equalityI) simp_all

lemma fold_upt_Suc: "fold g [0..<Suc j] s = g j (fold g [0..<j] s)"
  by simp

lemma word_succ_unat: "(n::u32) \<noteq> - 1 \<Longrightarrow> unat (n + 1) = Suc (unat n)"
  by (metis add.commute add_eq_0_iff2 unatSuc)

lemma for_le_upto: "n \<noteq> - 1 \<Longrightarrow> for_le lo n body s = for_each [lo..<Suc (unat n)] body s"
  by (simp add: for_le_def)

lemma for_le_pred:
  "(n::u32) \<noteq> 0 \<Longrightarrow> for_le 0 (n - 1) body s = for_each [0..<unat n] body s"
proof -
  assume n: "n \<noteq> 0"
  then have "n - 1 \<noteq> - 1" by simp
  moreover have "Suc (unat (n - 1)) = unat n"
    using n unat_gt_0 [of n] by (simp add: unat_minus_one)
  ultimately show ?thesis by (simp add: for_le_def)
qed

section \<open>The blocks compute their values on well-formed instances\<close>

lemma wf_row: "wf st \<Longrightarrow> i \<le> dim st \<Longrightarrow> length (v st ! i) = dim st"
  by (simp add: wf_def)

lemma for_lt_dim: "for_lt (size_nm st) body s = for_each [0..<dim st] body s"
  by (simp add: for_lt_def dim_def)

lemma for_le_dim:
  "wf st \<Longrightarrow> for_le lo (size_nm st) body s = for_each [lo..<Suc (dim st)] body s"
  by (simp add: for_le_upto wf_def dim_def)

lemma for_le_dim_pred:
  "size_nm st \<noteq> 0 \<Longrightarrow> for_le 0 (size_nm st - 1) body s = for_each [0..<dim st] body s"
  by (simp add: for_le_pred dim_def)

lemma real_succ_dim: "wf st \<Longrightarrow> real (unat (size_nm st + 1)) = real (Suc (dim st))"
  by (simp add: wf_def dim_def word_succ_unat)

lemma rows_step:
  "i < length w \<Longrightarrow> (map R [0..<i] @ drop i w)[i := R i] = map R [0..<Suc i] @ drop (Suc i) w"
  by (rule fill_step)

lemma doInitialize_eq:
  assumes wf: "wf st" and len: "dim st \<le> length start"
  shows "doInitialize start scale st = Inr (doInitialize_p start scale st)"
proof -
  define n where "n = dim st"
  define pn where "pn = scale * (sqrt (real (unat (size_nm st + 1))) - 1 + real (unat (size_nm st)))
                        / (real (unat (size_nm st)) * sqrt 2)"
  define qn where "qn = scale * (sqrt (real (unat (size_nm st + 1))) - 1)
                        / (real (unat (size_nm st)) * sqrt 2)"
  define R where "R = (\<lambda>i. map (\<lambda>j. if i = 0 then start ! j
                                     else (if i - 1 = j then pn else qn) + start ! j) [0..<n])"
  define G where "G = (\<lambda>i. map R [0..<i] @ drop i (v st))"
  have lv: "length (v st) = Suc n" and lrow: "\<And>i. i \<le> n \<Longrightarrow> length (v st ! i) = n"
    using wf by (simp_all add: wf_def n_def)
  have "for_each [0..<n] (\<lambda>i w. andThen ((\<lambda>i w. rd start i) i w) (\<lambda>x. wr2 w 0 i x)) (v st)
        = Inr ((v st)[0 := map (\<lambda>j. start ! j) [0..<n] @ drop n (v st ! 0)])"
    by (rule fill_row) (use lv lrow [of 0] len in \<open>simp_all add: n_def\<close>)
  moreover have "(v st)[0 := map (\<lambda>j. start ! j) [0..<n] @ drop n (v st ! 0)] = G 1"
    using rows_step [of 0 "v st" R] lv lrow [of 0] by (simp add: G_def R_def)
  ultimately have first:
    "for_lt (size_nm st) (\<lambda>i w. andThen (rd start i) (\<lambda>x. wr2 w 0 i x)) (v st) = Inr (G 1)"
    by (simp add: for_lt_dim n_def)
  have "for_each [1..<Suc n]
                (\<lambda>i w. for_lt (size_nm st) (\<lambda>j w.
                   andThen (if i - 1 = j
                            then andThen (rd start j) (\<lambda>x. Inr (pn + x))
                            else andThen (rd start j) (\<lambda>x. Inr (qn + x)))
                     (\<lambda>y. wr2 w i j y)) w) (G 1) = Inr (G (Suc n))"
  proof (rule for_each_upt_eq)
    fix i assume i: "1 \<le> i" "i < Suc n"
    have Gi: "G i ! i = v st ! i" "length (G i) = Suc n"
      using i lv by (simp_all add: G_def nth_append)
    have "for_each [0..<n] (\<lambda>j w. andThen ((\<lambda>j w. if i - 1 = j
                            then andThen (rd start j) (\<lambda>x. Inr (pn + x))
                            else andThen (rd start j) (\<lambda>x. Inr (qn + x))) j w)
                     (\<lambda>y. wr2 w i j y)) (G i)
          = Inr ((G i)[i := map (\<lambda>j. (if i - 1 = j then pn else qn) + start ! j) [0..<n]
                              @ drop n (G i ! i)])"
      by (rule fill_row) (use i Gi lrow [of i] len in \<open>simp_all add: n_def\<close>)
    moreover have "(G i)[i := map (\<lambda>j. (if i - 1 = j then pn else qn) + start ! j) [0..<n]
                              @ drop n (G i ! i)] = G (Suc i)"
    proof -
      have a: "map (\<lambda>j. (if i - 1 = j then pn else qn) + start ! j) [0..<n] = R i"
        using i by (simp add: R_def)
      have b: "drop n (G i ! i) = []"
        using Gi lrow [of i] i by simp
      have c: "(G i)[i := R i] = G (Suc i)"
        unfolding G_def using rows_step [of i "v st" R] i lv by simp
      show ?thesis by (simp only: a b c append_Nil2)
    qed
    ultimately show "for_lt (size_nm st) (\<lambda>j w.
                   andThen (if i - 1 = j
                            then andThen (rd start j) (\<lambda>x. Inr (pn + x))
                            else andThen (rd start j) (\<lambda>x. Inr (qn + x)))
                     (\<lambda>y. wr2 w i j y)) (G i) = Inr (G (Suc i))"
      by (simp add: for_lt_dim n_def)
  qed simp
  then have rest: "for_le 1 (size_nm st)
                (\<lambda>i w. for_lt (size_nm st) (\<lambda>j w.
                   andThen (if i - 1 = j
                            then andThen (rd start j) (\<lambda>x. Inr (pn + x))
                            else andThen (rd start j) (\<lambda>x. Inr (qn + x)))
                     (\<lambda>y. wr2 w i j y)) w) (G 1) = Inr (G (Suc n))"
    by (simp only: for_le_dim [OF wf] n_def)
  have sz: "unat (size_nm st + 1) = Suc (dim st)" "unat (size_nm st) = dim st"
    using wf by (simp_all add: wf_def dim_def word_succ_unat)
  have fin: "st\<lparr>evalCount := 0, vs := 0, vh := 0, vg := 0, v := G (Suc n)\<rparr>
             = doInitialize_p start scale st"
    using lv by (simp add: G_def doInitialize_p_def R_def pn_def qn_def sz n_def Let_def)
  show ?thesis
    unfolding doInitialize_def Let_def pn_def [symmetric] qn_def [symmetric]
    by (simp only: first rest andThen_Inr fin)
qed

lemma constrain_None: "constrainFunc st = None \<Longrightarrow> constrain st = (\<lambda>x. x)"
  by (rule ext) (simp add: constrain_def)

lemma constrain_Some: "constrainFunc st = Some c \<Longrightarrow> constrain st = c"
  by (rule ext) (simp add: constrain_def)

lemma constrain_all_eq:
  assumes wf: "wf st"
  shows "constrain_all st = Inr (constrain_all_p st)"
proof (cases "constrainFunc st")
  case None
  then show ?thesis
    by (simp add: constrain_all_def constrain_all_p_def constrain_None)
next
  case (Some c)
  let ?G = "\<lambda>j. map (\<lambda>i. c (v st ! i)) [0..<j] @ drop j (v st)"
  have lv: "length (v st) = Suc (dim st)"
    using wf by (simp add: wf_def)
  have "for_each [0..<Suc (dim st)] (\<lambda>j w. upd w j c) (?G 0) = Inr (?G (Suc (dim st)))"
  proof (rule for_each_upt_eq)
    fix j assume j: "j < Suc (dim st)"
    then have "?G j ! j = v st ! j" "j < length (?G j)"
      using lv by (simp_all add: nth_append)
    then show "upd (?G j) j c = Inr (?G (Suc j))"
      using rows_step [of j "v st" "\<lambda>i. c (v st ! i)"] j lv by simp
  qed simp
  moreover have "?G (Suc (dim st)) = map c (v st)"
    using map_nth_upt [of c "v st"] lv by simp
  ultimately have "for_le 0 (size_nm st) (\<lambda>j w. upd w j c) (v st) = Inr (map c (v st))"
    by (simp add: for_le_dim [OF wf])
  then show ?thesis
    using Some by (simp add: constrain_all_def constrain_all_p_def constrain_Some)
qed

lemma evaluate_all_eq:
  assumes wf: "wf st"
  shows "evaluate_all st = Inr (evaluate_all_p st)"
proof -
  define G where "G = (\<lambda>j. st\<lparr>f := map (\<lambda>i. evalFunc st (v st ! i)) [0..<j] @ drop j (f st),
                            evalCount := evalCount st + of_nat j,
                            invocations := invocations st + j\<rparr>)"
  have lv: "length (v st) = Suc (dim st)" and lf: "length (f st) = Suc (dim st)"
    using wf by (simp_all add: wf_def)
  have "for_each [0..<Suc (dim st)]
          (\<lambda>j s. andThen (rd (v s) j) (\<lambda>x.
             case doEvaluate s x of (y, s') \<Rightarrow>
               andThen (wr (f s') j y) (\<lambda>g. Inr (s'\<lparr>f := g\<rparr>)))) (G 0)
        = Inr (G (Suc (dim st)))"
  proof (rule for_each_upt_eq)
    fix j assume j: "j < Suc (dim st)"
    show "andThen (rd (v (G j)) j) (\<lambda>x.
             case doEvaluate (G j) x of (y, s') \<Rightarrow>
               andThen (wr (f s') j y) (\<lambda>g. Inr (s'\<lparr>f := g\<rparr>))) = Inr (G (Suc j))"
      using j lv lf fill_step [of j "f st" "\<lambda>i. evalFunc st (v st ! i)"]
      by (simp add: G_def doEvaluate_def)
  qed simp
  moreover have "G 0 = st"
    by (simp add: G_def)
  moreover have "G (Suc (dim st)) = evaluate_all_p st"
    using map_nth_upt [of "evalFunc st" "v st"] lv lf
    by (simp add: G_def evaluate_all_p_def)
  ultimately show ?thesis
    by (simp add: evaluate_all_def for_le_dim [OF wf])
qed

lemma arg_scan_snoc:
  "arg_scan b xs [0..<Suc j] i0 =
     (let i = arg_scan b xs [0..<j] i0 in if b (xs ! j) (xs ! i) then j else i)"
  by (simp add: arg_scan_def)

lemma arg_scan_bound: "i0 \<le> n \<Longrightarrow> j \<le> Suc n \<Longrightarrow> arg_scan b xs [0..<j] i0 \<le> n"
  by (induction j) (simp_all add: arg_scan_def)

lemma doIndexes_eq:
  assumes wf: "wf st"
  shows "doIndexes st = Inr (doIndexes_p st)"
proof -
  define n where "n = dim st"
  define xs where "xs = f st"
  define G where "G = (\<lambda>j. (arg_scan (\<lambda>a b. a > b) xs [0..<j] (vg st),
                            arg_scan (\<lambda>a b. a < b) xs [0..<j] (vs st)))"
  have lf: "length xs = Suc n" and i0: "vg st \<le> n" "vs st \<le> n"
    using wf by (simp_all add: wf_def n_def xs_def)
  have "for_each [0..<Suc n]
          (\<lambda>j (g, s).
             andThen (rd xs j) (\<lambda>fj. andThen (rd xs g) (\<lambda>fg.
               let g' = (if fj > fg then j else g) in
               andThen (rd xs j) (\<lambda>fj. andThen (rd xs s) (\<lambda>fs.
                 Inr (g', if fj < fs then j else s)))))) (G 0) = Inr (G (Suc n))"
  proof (rule for_each_upt_eq)
    fix j assume j: "j < Suc n"
    have "arg_scan (\<lambda>a b. a > b) xs [0..<j] (vg st) < length xs"
         "arg_scan (\<lambda>a b. a < b) xs [0..<j] (vs st) < length xs"
      using arg_scan_bound [of _ n j] i0 j lf by (simp_all add: less_Suc_eq_le)
    then show "(case G j of (g, s) \<Rightarrow>
             andThen (rd xs j) (\<lambda>fj. andThen (rd xs g) (\<lambda>fg.
               let g' = (if fj > fg then j else g) in
               andThen (rd xs j) (\<lambda>fj. andThen (rd xs s) (\<lambda>fs.
                 Inr (g', if fj < fs then j else s)))))) = Inr (G (Suc j))"
      using j lf by (simp add: G_def arg_scan_snoc Let_def del: upt_Suc)
  qed simp
  then have first: "for_le 0 (size_nm st)
          (\<lambda>j (g, s).
             andThen (rd xs j) (\<lambda>fj. andThen (rd xs g) (\<lambda>fg.
               let g' = (if fj > fg then j else g) in
               andThen (rd xs j) (\<lambda>fj. andThen (rd xs s) (\<lambda>fs.
                 Inr (g', if fj < fs then j else s)))))) (vg st, vs st) = Inr (G (Suc n))"
    by (simp add: for_le_dim [OF wf] n_def G_def arg_scan_def del: upt_Suc)
  define g where "g = arg_scan (\<lambda>a b. a > b) xs [0..<Suc n] (vg st)"
  define s where "s = arg_scan (\<lambda>a b. a < b) xs [0..<Suc n] (vs st)"
  define H where "H = (\<lambda>j. arg_scan (\<lambda>a b. a > b \<and> a < xs ! g) xs [0..<j] s)"
  have gs: "g \<le> n" "s \<le> n"
    using arg_scan_bound [of _ n "Suc n"] i0 by (simp_all add: g_def s_def del: upt_Suc)
  have "for_each [0..<Suc n]
          (\<lambda>j h. andThen (rd xs j) (\<lambda>fj. andThen (rd xs h) (\<lambda>fh.
                if fj > fh
                then andThen (rd xs j) (\<lambda>fj. andThen (rd xs g) (\<lambda>fg.
                       Inr (if fj < fg then j else h)))
                else Inr h))) (H 0) = Inr (H (Suc n))"
  proof (rule for_each_upt_eq)
    fix j assume j: "j < Suc n"
    have "H j < length xs"
      using arg_scan_bound [of s n j] gs j lf by (simp add: H_def less_Suc_eq_le)
    then show "andThen (rd xs j) (\<lambda>fj. andThen (rd xs (H j)) (\<lambda>fh.
                if fj > fh
                then andThen (rd xs j) (\<lambda>fj. andThen (rd xs g) (\<lambda>fg.
                       Inr (if fj < fg then j else H j)))
                else Inr (H j))) = Inr (H (Suc j))"
      using j lf gs unfolding H_def arg_scan_snoc Let_def by simp
  qed simp
  then have second: "for_le 0 (size_nm st)
          (\<lambda>j h. andThen (rd xs j) (\<lambda>fj. andThen (rd xs h) (\<lambda>fh.
                if fj > fh
                then andThen (rd xs j) (\<lambda>fj. andThen (rd xs g) (\<lambda>fg.
                       Inr (if fj < fg then j else h)))
                else Inr h))) s = Inr (H (Suc n))"
    by (simp add: for_le_dim [OF wf] n_def H_def arg_scan_def del: upt_Suc)
  have fin: "st\<lparr>vh := vs st, vs := s, vh := H (Suc n), vg := g\<rparr> = doIndexes_p st"
    by (simp add: doIndexes_p_def Let_def H_def g_def s_def xs_def n_def del: upt_Suc)
  have Gn: "G (Suc n) = (g, s)"
    by (simp add: G_def g_def s_def)
  show ?thesis
    unfolding doIndexes_def Let_def
    using first second fin
    by (simp add: xs_def [symmetric] Gn del: upt_Suc cong: if_cong)
qed

lemma unsigned_dim: "(unsigned (size_nm st) :: real) = real (dim st)"
  by (simp add: dim_def)

lemma unsigned_succ_dim: "wf st \<Longrightarrow> (unsigned (size_nm st + 1) :: real) = real (Suc (dim st))"
  using real_succ_dim [of st] by simp

lemma centroid_eq:
  assumes wf: "wf st" and nz: "size_nm st \<noteq> 0"
  shows "centroid st = Inr (centroid_p st)"
proof -
  define n where "n = dim st"
  define C where "C = (\<lambda>j. fold (\<lambda>k cent. if k \<noteq> vg st then cent + v st ! k ! j else cent)
                          [0..<Suc n] (0::real))"
  have lv: "length (v st) = Suc n" and lrow: "\<And>i. i \<le> n \<Longrightarrow> length (v st ! i) = n"
    and lm: "length (vm st) = n"
    using wf by (simp_all add: wf_def n_def)
  have inner: "for_le 0 (size_nm st) (\<lambda>k cent.
               if k \<noteq> vg st then andThen (rd2 (v st) k j) (\<lambda>x. Inr (cent + x)) else Inr cent)
               0 = Inr (C j)" if "j < n" for j
  proof -
    have "for_each [0..<Suc n] (\<lambda>k cent.
               if k \<noteq> vg st then andThen (rd2 (v st) k j) (\<lambda>x. Inr (cent + x)) else Inr cent) 0
          = Inr (C j) \<and> True"
      unfolding C_def
      by (rule for_each_fold [where I = "\<lambda>_. True"]) (use that lv lrow in auto)
    then show ?thesis
      by (simp add: for_le_dim [OF wf] n_def del: upt_Suc)
  qed
  have "for_each [0..<n] (\<lambda>j m.
          andThen
            ((\<lambda>j m. for_le 0 (size_nm st) (\<lambda>k cent.
               if k \<noteq> vg st then andThen (rd2 (v st) k j) (\<lambda>x. Inr (cent + x)) else Inr cent)
               0) j m)
            (\<lambda>cent. wr m j ((\<lambda>j cent. cent / real (unat (size_nm st))) j cent)))
          (vm st) = Inr (map (\<lambda>j. C j / real n) [0..<n] @ drop n (vm st))"
    by (rule fill_vec_gen [where a = C]) (use lm inner in \<open>simp_all add: n_def dim_def\<close>)
  then show ?thesis
    using lm
    by (simp add: centroid_def centroid_p_def for_le_dim_pred [OF nz] n_def C_def del: upt_Suc)
qed

lemma reflection_eq:
  assumes wf: "wf st" and nz: "size_nm st \<noteq> 0"
  shows "reflection st = Inr (reflection_p st)"
proof -
  define n where "n = dim st"
  have lv: "length (v st) = Suc n" and lrow: "\<And>i. i \<le> n \<Longrightarrow> length (v st ! i) = n"
    and lm: "length (vm st) = n" and lr: "length (vr st) = n" and g: "vg st \<le> n"
    using wf by (simp_all add: wf_def n_def)
  have "for_each [0..<n] (\<lambda>j r.
          andThen
            ((\<lambda>j r. andThen (rd (vm st) j) (\<lambda>m. andThen (rd (vm st) j) (\<lambda>m'.
               andThen (rd2 (v st) (vg st) j) (\<lambda>x.
                 Inr (m + configReflectionCoefficient st * (m' - x)))))) j r)
            (\<lambda>y. wr r j y))
          (vr st)
        = Inr (map (\<lambda>j. vm st ! j + configReflectionCoefficient st * (vm st ! j - v st ! vg st ! j))
                 [0..<n] @ drop n (vr st))"
    by (rule fill_vec) (use lv lrow [OF g] lm lr g in simp_all)
  then show ?thesis
    using lr by (simp add: reflection_def reflection_p_def for_le_dim_pred [OF nz] n_def)
qed

lemma accept_eq:
  assumes wf: "wf st" and nz: "size_nm st \<noteq> 0" and lx: "length x = dim st"
  shows "accept x fx st = Inr (accept_p x fx st)"
proof -
  define n where "n = dim st"
  have lv: "length (v st) = Suc n" and lrow: "\<And>i. i \<le> n \<Longrightarrow> length (v st ! i) = n"
    and lf: "length (f st) = Suc n" and g: "vg st \<le> n"
    using wf by (simp_all add: wf_def n_def)
  have "for_each [0..<n] (\<lambda>j w. andThen ((\<lambda>j w. rd x j) j w) (\<lambda>y. wr2 w (vg st) j y)) (v st)
        = Inr ((v st)[vg st := map (\<lambda>j. x ! j) [0..<n] @ drop n (v st ! vg st)])"
    by (rule fill_row) (use lv lrow [OF g] g lx in \<open>simp_all add: n_def\<close>)
  moreover have "map (\<lambda>j. x ! j) [0..<n] = x"
    using lx map_nth [of x] by (simp add: n_def)
  ultimately show ?thesis
    using lrow [OF g] lf g
    by (simp add: accept_def accept_p_def for_le_dim_pred [OF nz] n_def)
qed

lemma spread_eq:
  assumes wf: "wf st"
  shows "spread st = Inr (spread_p st)"
proof -
  define n where "n = dim st"
  have lf: "length (f st) = Suc n"
    using wf by (simp add: wf_def n_def)
  have "for_each [0..<Suc n] (\<lambda>j fsum. andThen (rd (f st) j) (\<lambda>x. Inr (fsum + x))) 0
        = Inr (fold (\<lambda>j fsum. fsum + f st ! j) [0..<Suc n] 0) \<and> True"
    by (rule for_each_fold [where I = "\<lambda>_. True"]) (use lf in auto)
  moreover have "for_each [0..<Suc n]
          (\<lambda>j s. andThen (rd (f st) j) (\<lambda>x. Inr (s + (x - a) ^ 2 / real (unat (size_nm st))))) 0
        = Inr (fold (\<lambda>j s. s + (f st ! j - a) ^ 2 / real (unat (size_nm st))) [0..<Suc n] 0) \<and> True"
    for a
    by (rule for_each_fold [where I = "\<lambda>_. True"]) (use lf in auto)
  ultimately show ?thesis
    by (simp add: spread_def spread_p_def Let_def for_le_dim [OF wf] unsigned_succ_dim [OF wf]
        unsigned_dim n_def del: upt_Suc of_nat_Suc)
qed

lemma shrink_rows_eq:
  assumes wf: "wf st" and nz: "size_nm st \<noteq> 0"
  shows "for_le 0 (size_nm st) (\<lambda>row w.
          if row \<noteq> vs st
          then for_le 0 (size_nm st - 1) (\<lambda>j w.
                 andThen
                   (andThen (rd2 w (vs st) j) (\<lambda>a. andThen (rd2 w row j) (\<lambda>b.
                      andThen (rd2 w (vs st) j) (\<lambda>a'. Inr (a + (b - a') / 2)))))
                   (\<lambda>y. wr2 w row j y)) w
          else Inr w)
          (v st) = Inr (shrink_rows st)"
proof -
  define n where "n = dim st"
  define R where "R = (\<lambda>row. if row \<noteq> vs st
                then map (\<lambda>j. v st ! vs st ! j + (v st ! row ! j - v st ! vs st ! j) / 2) [0..<n]
                else v st ! row)"
  define G where "G = (\<lambda>i. map R [0..<i] @ drop i (v st))"
  have lv: "length (v st) = Suc n" and lrow: "\<And>i. i \<le> n \<Longrightarrow> length (v st ! i) = n"
    and s: "vs st \<le> n"
    using wf by (simp_all add: wf_def n_def)
  have Gs: "G i ! vs st = v st ! vs st" if "i \<le> Suc n" for i
    using that s lv by (simp add: G_def nth_append R_def)
  have "for_each [0..<Suc n] (\<lambda>row w.
          if row \<noteq> vs st
          then for_le 0 (size_nm st - 1) (\<lambda>j w.
                 andThen
                   (andThen (rd2 w (vs st) j) (\<lambda>a. andThen (rd2 w row j) (\<lambda>b.
                      andThen (rd2 w (vs st) j) (\<lambda>a'. Inr (a + (b - a') / 2)))))
                   (\<lambda>y. wr2 w row j y)) w
          else Inr w) (G 0) = Inr (G (Suc n))"
  proof (rule for_each_upt_eq)
    fix i assume i: "i < Suc n"
    have Gi: "G i ! i = v st ! i" "length (G i) = Suc n"
      using i lv by (simp_all add: G_def nth_append)
    have next_row: "(G i)[i := R i] = G (Suc i)"
      unfolding G_def using rows_step [of i "v st" R] i lv by simp
    show "(if i \<noteq> vs st
          then for_le 0 (size_nm st - 1) (\<lambda>j w.
                 andThen
                   (andThen (rd2 w (vs st) j) (\<lambda>a. andThen (rd2 w i j) (\<lambda>b.
                      andThen (rd2 w (vs st) j) (\<lambda>a'. Inr (a + (b - a') / 2)))))
                   (\<lambda>y. wr2 w i j y)) (G i)
          else Inr (G i)) = Inr (G (Suc i))"
    proof (cases "i = vs st")
      case True
      have "R i = v st ! i"
        using True by (simp add: R_def)
      then have "(G i)[i := R i] = G i"
        using Gi by (metis list_update_id)
      with next_row show ?thesis
        using True by simp
    next
      case False
      define h where "h = (\<lambda>j. v st ! vs st ! j + (v st ! i ! j - v st ! vs st ! j) / 2)"
      have "for_each [0..<n] (\<lambda>j w.
                 andThen
                   ((\<lambda>j w. andThen (rd2 w (vs st) j) (\<lambda>a. andThen (rd2 w i j) (\<lambda>b.
                      andThen (rd2 w (vs st) j) (\<lambda>a'. Inr (a + (b - a') / 2))))) j w)
                   (\<lambda>y. wr2 w i j y)) (G i)
            = Inr ((G i)[i := map h [0..<n] @ drop n (G i ! i)])"
      proof (rule fill_row)
        fix j assume j: "j < n"
        let ?w = "(G i)[i := map h [0..<j] @ drop j (G i ! i)]"
        have "?w ! vs st = v st ! vs st"
          using False Gs [of i] i by simp
        moreover have "?w ! i ! j = v st ! i ! j"
          using Gi j lrow [of i] i by (simp add: nth_append)
        moreover have "length ?w = Suc n" "length (?w ! i) = n"
          using Gi lrow [of i] i j by simp_all
        ultimately show "andThen (rd2 ?w (vs st) j) (\<lambda>a. andThen (rd2 ?w i j) (\<lambda>b.
                      andThen (rd2 ?w (vs st) j) (\<lambda>a'. Inr (a + (b - a') / 2)))) = Inr (h j)"
          using s i j lrow [OF s] by (simp add: h_def)
      qed (use Gi i lrow [of i] in simp_all)
      moreover have "map h [0..<n] @ drop n (G i ! i) = R i"
        using False Gi lrow [of i] i by (simp add: R_def h_def)
      ultimately show ?thesis
        using False next_row by (simp add: for_le_dim_pred [OF nz] n_def)
    qed
  qed simp
  moreover have "G (Suc n) = shrink_rows st"
    using lv by (simp add: G_def shrink_rows_def R_def n_def)
  ultimately show ?thesis
    by (simp add: for_le_dim [OF wf] n_def G_def del: upt_Suc)
qed

lemma dim_update [simp]:
  "dim (st\<lparr>configMaxIterations := a1\<rparr>) = dim st"
  "dim (st\<lparr>configReflectionCoefficient := a2\<rparr>) = dim st"
  "dim (st\<lparr>configContractionCoefficient := a3\<rparr>) = dim st"
  "dim (st\<lparr>configExpansionCoefficient := a4\<rparr>) = dim st"
  "dim (st\<lparr>evalFunc := a5\<rparr>) = dim st"
  "dim (st\<lparr>constrainFunc := a6\<rparr>) = dim st"
  "dim (st\<lparr>v := a7\<rparr>) = dim st"
  "dim (st\<lparr>f := a8\<rparr>) = dim st"
  "dim (st\<lparr>vr := a9\<rparr>) = dim st"
  "dim (st\<lparr>ve := a10\<rparr>) = dim st"
  "dim (st\<lparr>vc := a11\<rparr>) = dim st"
  "dim (st\<lparr>vm := a12\<rparr>) = dim st"
  "dim (st\<lparr>evalCount := a13\<rparr>) = dim st"
  "dim (st\<lparr>vs := a14\<rparr>) = dim st"
  "dim (st\<lparr>vh := a15\<rparr>) = dim st"
  "dim (st\<lparr>vg := a16\<rparr>) = dim st"
  "dim (st\<lparr>lastExecResults := a17\<rparr>) = dim st"
  "dim (st\<lparr>invocations := a18\<rparr>) = dim st"
  by (simp_all add: dim_def)

lemma constrain_update [simp]:
  "constrain (st\<lparr>configMaxIterations := a1\<rparr>) = constrain st"
  "constrain (st\<lparr>configReflectionCoefficient := a2\<rparr>) = constrain st"
  "constrain (st\<lparr>configContractionCoefficient := a3\<rparr>) = constrain st"
  "constrain (st\<lparr>configExpansionCoefficient := a4\<rparr>) = constrain st"
  "constrain (st\<lparr>evalFunc := a5\<rparr>) = constrain st"
  "constrain (st\<lparr>size_nm := a6\<rparr>) = constrain st"
  "constrain (st\<lparr>v := a7\<rparr>) = constrain st"
  "constrain (st\<lparr>f := a8\<rparr>) = constrain st"
  "constrain (st\<lparr>vr := a9\<rparr>) = constrain st"
  "constrain (st\<lparr>ve := a10\<rparr>) = constrain st"
  "constrain (st\<lparr>vc := a11\<rparr>) = constrain st"
  "constrain (st\<lparr>vm := a12\<rparr>) = constrain st"
  "constrain (st\<lparr>evalCount := a13\<rparr>) = constrain st"
  "constrain (st\<lparr>vs := a14\<rparr>) = constrain st"
  "constrain (st\<lparr>vh := a15\<rparr>) = constrain st"
  "constrain (st\<lparr>vg := a16\<rparr>) = constrain st"
  "constrain (st\<lparr>lastExecResults := a17\<rparr>) = constrain st"
  "constrain (st\<lparr>invocations := a18\<rparr>) = constrain st"
  by (rule ext, simp add: constrain_def)+

lemma constrain_length: "wf st \<Longrightarrow> length x = dim st \<Longrightarrow> length (constrain st x) = dim st"
  by (cases "constrainFunc st") (simp_all add: constrain_def wf_def)

lemma wf_ghost [simp]:
  "wf (st\<lparr>evalCount := a\<rparr>) = wf st"
  "wf (st\<lparr>invocations := b\<rparr>) = wf st"
  "wf (st\<lparr>lastExecResults := c\<rparr>) = wf st"
  "wf (st\<lparr>configMaxIterations := a1\<rparr>) = wf st"
  "wf (st\<lparr>configReflectionCoefficient := a2\<rparr>) = wf st"
  "wf (st\<lparr>configContractionCoefficient := a3\<rparr>) = wf st"
  "wf (st\<lparr>configExpansionCoefficient := a4\<rparr>) = wf st"
  "wf (st\<lparr>evalFunc := a5\<rparr>) = wf st"
  by (simp_all add: wf_def)

lemma wf_scratch:
  "wf st \<Longrightarrow> length x = dim st \<Longrightarrow> wf (st\<lparr>vr := x\<rparr>)"
  "wf st \<Longrightarrow> length x = dim st \<Longrightarrow> wf (st\<lparr>ve := x\<rparr>)"
  "wf st \<Longrightarrow> length x = dim st \<Longrightarrow> wf (st\<lparr>vc := x\<rparr>)"
  "wf st \<Longrightarrow> length x = dim st \<Longrightarrow> wf (st\<lparr>vm := x\<rparr>)"
  by (simp_all add: wf_def)

lemma wf_table: "wf st \<Longrightarrow> length g = Suc (dim st) \<Longrightarrow> wf (st\<lparr>f := g\<rparr>)"
  by (simp add: wf_def)

lemma wf_simplex:
  "wf st \<Longrightarrow> length w = Suc (dim st) \<Longrightarrow> \<forall>x \<in> set w. length x = dim st \<Longrightarrow> wf (st\<lparr>v := w\<rparr>)"
  by (simp add: wf_def)

lemma wf_indices:
  "wf st \<Longrightarrow> s \<le> dim st \<Longrightarrow> h \<le> dim st \<Longrightarrow> g \<le> dim st \<Longrightarrow> wf (st\<lparr>vs := s, vh := h, vg := g\<rparr>)"
  by (simp add: wf_def)

lemma wf_vertex:
  "wf st \<Longrightarrow> length x = dim st \<Longrightarrow> wf (st\<lparr>v := (v st)[i := x]\<rparr>)"
  by (auto simp: wf_def dest!: set_update_subset_insert [THEN subsetD])

lemma wf_doInitialize_p: "wf st \<Longrightarrow> wf (doInitialize_p start scale st)"
  by (simp add: wf_def doInitialize_p_def Let_def dim_def del: upt_Suc)

lemma dim_doInitialize_p [simp]: "dim (doInitialize_p start scale st) = dim st"
  by (simp add: doInitialize_p_def Let_def)

lemma wf_constrain_all_p: "wf st \<Longrightarrow> wf (constrain_all_p st)"
  unfolding constrain_all_p_def
  by (rule wf_simplex) (auto simp: constrain_length wf_def)

lemma dim_constrain_all_p [simp]: "dim (constrain_all_p st) = dim st"
  by (simp add: constrain_all_p_def)

lemma wf_evaluate_all_p: "wf st \<Longrightarrow> wf (evaluate_all_p st)"
  by (simp add: evaluate_all_p_def wf_table wf_def [of st])

lemma dim_evaluate_all_p [simp]: "dim (evaluate_all_p st) = dim st"
  by (simp add: evaluate_all_p_def)

lemma wf_doIndexes_p: "wf st \<Longrightarrow> wf (doIndexes_p st)"
  unfolding doIndexes_p_def Let_def
  by (rule wf_indices) (simp_all add: arg_scan_bound wf_def [of st] del: upt_Suc)

lemma dim_doIndexes_p [simp]: "dim (doIndexes_p st) = dim st"
  by (simp add: doIndexes_p_def Let_def)

lemma wf_centroid_p: "wf st \<Longrightarrow> wf (centroid_p st)"
  by (simp add: centroid_p_def wf_scratch)

lemma wf_reflection_p: "wf st \<Longrightarrow> wf (reflection_p st)"
  by (simp add: reflection_p_def wf_scratch constrain_length)

lemma wf_accept_p: "wf st \<Longrightarrow> length x = dim st \<Longrightarrow> wf (accept_p x fx st)"
  unfolding accept_p_def
  using wf_table [OF wf_vertex, of st x "(f st)[vg st := fx]" "vg st"]
  by (simp add: wf_def [of st])

lemma wf_doEvaluate: "wf (snd (doEvaluate st x)) = wf st"
  by (simp add: doEvaluate_def)

lemma exec_init_eq:
  assumes "wf st" "dim st \<le> length start"
  shows "exec_init start scale st = Inr (exec_init_p start scale st)"
  using assms
  by (simp add: exec_init_def exec_init_p_def doInitialize_eq constrain_all_eq evaluate_all_eq
      wf_doInitialize_p wf_constrain_all_p)

lemma wf_exec_init_p: "wf st \<Longrightarrow> wf (exec_init_p start scale st)"
  by (simp add: exec_init_p_def wf_doInitialize_p wf_constrain_all_p wf_evaluate_all_p)

lemma combine_loop:
  assumes "length a = n" "length b = n" "length c = n" "length e = n"
  shows "for_each [0..<n] (\<lambda>j e.
           andThen (andThen (rd a j) (\<lambda>m. andThen (rd b j) (\<lambda>r. andThen (rd c j) (\<lambda>m'.
                      Inr (F m r m')))))
             (\<lambda>y. wr e j y)) e
         = Inr (map (\<lambda>j. F (a ! j) (b ! j) (c ! j)) [0..<n])"
proof -
  have "for_each [0..<n] (\<lambda>j e.
           andThen ((\<lambda>j e. andThen (rd a j) (\<lambda>m. andThen (rd b j) (\<lambda>r. andThen (rd c j) (\<lambda>m'.
                      Inr (F m r m'))))) j e)
             (\<lambda>y. wr e j y)) e
         = Inr (map (\<lambda>j. F (a ! j) (b ! j) (c ! j)) [0..<n] @ drop n e)"
    by (rule fill_vec) (use assms in simp_all)
  then show ?thesis using assms by simp
qed

lemma accept_reflection_eq:
  assumes wf: "wf st" and nz: "size_nm st \<noteq> 0"
  shows "accept_reflection fr st = Inr (accept_reflection_p fr st)"
proof -
  have "vh st < length (f st)" "vs st < length (f st)" "length (vr st) = dim st"
    using wf by (simp_all add: wf_def)
  then show ?thesis
    using accept_eq [OF wf nz, of "vr st" fr]
    by (simp add: accept_reflection_def accept_reflection_p_def)
qed

lemma wf_accept_reflection_p: "wf st \<Longrightarrow> wf (snd (accept_reflection_p fr st))"
  by (simp add: accept_reflection_p_def wf_accept_p wf_def [of st])

lemma expansion_eq:
  assumes wf: "wf st" and nz: "size_nm st \<noteq> 0"
  shows "expansion fr st = Inr (expansion_p fr st)"
proof (cases "fr < f st ! vs st")
  case False
  moreover have "vs st < length (f st)"
    using wf by (simp add: wf_def)
  ultimately show ?thesis
    by (simp add: expansion_def expansion_p_def)
next
  case True
  define E where "E = constrain st
                     (map (\<lambda>j. vm st ! j + configExpansionCoefficient st * (vr st ! j - vm st ! j))
                        [0..<dim st])"
  define st2 where "st2 = st\<lparr>ve := E, evalCount := evalCount st + 1,
                              invocations := Suc (invocations st)\<rparr>"
  have len: "vs st < length (f st)" "length (vm st) = dim st" "length (vr st) = dim st"
    "length (ve st) = dim st"
    using wf by (simp_all add: wf_def)
  have loop: "for_le 0 (size_nm st - 1) (\<lambda>j e.
              andThen
                (andThen (rd (vm st) j) (\<lambda>m. andThen (rd (vr st) j) (\<lambda>r.
                   andThen (rd (vm st) j) (\<lambda>m'.
                     Inr (m + configExpansionCoefficient st * (r - m'))))))
                (\<lambda>y. wr e j y))
              (ve st)
        = Inr (map (\<lambda>j. vm st ! j + configExpansionCoefficient st * (vr st ! j - vm st ! j))
                        [0..<dim st])"
    using combine_loop [of "vm st" "dim st" "vr st" "vm st" "ve st"
        "\<lambda>m r m'. m + configExpansionCoefficient st * (r - m')"] len
    by (simp add: for_le_dim_pred [OF nz])
  have lE: "length E = dim st"
    by (simp add: E_def constrain_length [OF wf])
  have wf2: "wf st2" "size_nm st2 \<noteq> 0" "length (ve st2) = dim st2" "length (vr st2) = dim st2"
    using wf nz lE len by (simp_all add: st2_def wf_scratch)
  show ?thesis
    using True len accept_eq [OF wf2(1,2,3)] accept_eq [OF wf2(1,2,4)]
    by (simp add: expansion_def expansion_p_def loop doEvaluate_def Let_def
        E_def [symmetric] st2_def [symmetric])
qed

lemma wf_expansion_p: "wf st \<Longrightarrow> wf (snd (expansion_p fr st))"
  by (simp add: expansion_p_def Let_def wf_accept_p wf_doEvaluate wf_scratch constrain_length
      doEvaluate_def wf_def [of st])

lemma doEvaluate_sel [simp]:
  "fst (doEvaluate st x) = evalFunc st x"
  "configMaxIterations (snd (doEvaluate st x)) = configMaxIterations st"
  "configReflectionCoefficient (snd (doEvaluate st x)) = configReflectionCoefficient st"
  "configContractionCoefficient (snd (doEvaluate st x)) = configContractionCoefficient st"
  "configExpansionCoefficient (snd (doEvaluate st x)) = configExpansionCoefficient st"
  "evalFunc (snd (doEvaluate st x)) = evalFunc st"
  "constrainFunc (snd (doEvaluate st x)) = constrainFunc st"
  "v (snd (doEvaluate st x)) = v st"
  "f (snd (doEvaluate st x)) = f st"
  "vr (snd (doEvaluate st x)) = vr st"
  "ve (snd (doEvaluate st x)) = ve st"
  "vc (snd (doEvaluate st x)) = vc st"
  "vm (snd (doEvaluate st x)) = vm st"
  "vs (snd (doEvaluate st x)) = vs st"
  "vh (snd (doEvaluate st x)) = vh st"
  "vg (snd (doEvaluate st x)) = vg st"
  "lastExecResults (snd (doEvaluate st x)) = lastExecResults st"
  "evalCount (snd (doEvaluate st x)) = evalCount st + 1"
  "invocations (snd (doEvaluate st x)) = Suc (invocations st)"
  "dim (snd (doEvaluate st x)) = dim st"
  "constrain (snd (doEvaluate st x)) = constrain st"
  by (simp_all add: doEvaluate_def)

lemma doEvaluate_split: "doEvaluate st x = (evalFunc st x, snd (doEvaluate st x))"
  by (simp add: doEvaluate_def)

lemma reevaluate_eq:
  assumes wf: "wf st" and i: "i \<le> dim st"
  shows "reevaluate i st = Inr (reevaluate_p i st)"
proof -
  have len: "i < length (v st)" "i < length (f st)"
    using wf i by (simp_all add: wf_def)
  have "constrain_row st i (v st) = Inr ((v st)[i := constrain st (v st ! i)])"
    using len by (cases "constrainFunc st") (simp_all add: constrain_row_def constrain_def)
  then show ?thesis
    using len by (simp add: reevaluate_def reevaluate_p_def doEvaluate_def Let_def)
qed

lemma wf_reevaluate_p: "wf st \<Longrightarrow> i \<le> dim st \<Longrightarrow> wf (reevaluate_p i st)"
  unfolding reevaluate_p_def Let_def
  by (rule wf_table) (simp_all add: wf_doEvaluate wf_vertex constrain_length wf_def [of st])

lemma dim_reevaluate_p [simp]: "dim (reevaluate_p i st) = dim st"
  by (simp add: reevaluate_p_def Let_def doEvaluate_def)

lemma wf_shrink_rows: "wf st \<Longrightarrow> wf (st\<lparr>v := shrink_rows st\<rparr>)"
  by (rule wf_simplex) (auto simp: shrink_rows_def wf_def simp del: upt_Suc)

lemma vh_reevaluate_p [simp]: "vh (reevaluate_p i st) = vh st"
  by (simp add: reevaluate_p_def Let_def doEvaluate_def)

lemma shrink_eq:
  assumes wf: "wf st" and nz: "size_nm st \<noteq> 0"
  shows "shrink st = Inr (shrink_p st)"
proof -
  define st1 where "st1 = evaluate_all_p (st\<lparr>v := shrink_rows st\<rparr>)"
  define st2 where "st2 = doIndexes_p st1"
  define st4 where "st4 = reevaluate_p (vg st2) st2"
  have wf1: "wf st1"
    using wf by (simp add: st1_def wf_evaluate_all_p wf_shrink_rows)
  then have wf2: "wf st2"
    by (simp add: st2_def wf_doIndexes_p)
  then have g: "vg st2 \<le> dim st2" and h: "vh st2 \<le> dim st2"
    by (simp_all add: wf_def)
  have wf4: "wf st4"
    using wf2 g by (simp add: st4_def wf_reevaluate_p)
  have h4: "vh st4 \<le> dim st4"
    using h by (simp add: st4_def)
  show ?thesis
    unfolding shrink_def
    using shrink_rows_eq [OF wf nz] evaluate_all_eq [OF wf_shrink_rows [OF wf]]
      doIndexes_eq [OF wf1] reevaluate_eq [OF wf2 g] reevaluate_eq [OF wf4 h4]
    by (simp add: shrink_p_def Let_def st1_def st2_def st4_def)
qed

lemma wf_shrink_p: "wf st \<Longrightarrow> wf (shrink_p st)"
proof -
  assume wf: "wf st"
  define st2 where "st2 = doIndexes_p (evaluate_all_p (st\<lparr>v := shrink_rows st\<rparr>))"
  have wf2: "wf st2"
    using wf by (simp add: st2_def wf_doIndexes_p wf_evaluate_all_p wf_shrink_rows)
  then have "wf (reevaluate_p (vg st2) st2)" "vh st2 \<le> dim st2"
    by (simp_all add: wf_reevaluate_p wf_def [of st2])
  then show ?thesis
    by (simp add: shrink_p_def Let_def st2_def [symmetric] wf_reevaluate_p)
qed

lemma size_keep [simp]:
  "size_nm (doIndexes_p st) = size_nm st"
  "size_nm (centroid_p st) = size_nm st"
  "size_nm (reflection_p st) = size_nm st"
  "size_nm (evaluate_all_p st) = size_nm st"
  "size_nm (constrain_all_p st) = size_nm st"
  "size_nm (doInitialize_p start scale st) = size_nm st"
  "size_nm (accept_p x fx st) = size_nm st"
  "size_nm (snd (doEvaluate st x)) = size_nm st"
  "size_nm (reevaluate_p i st) = size_nm st"
  "size_nm (snd (accept_reflection_p fr st)) = size_nm st"
  "size_nm (snd (expansion_p fr st)) = size_nm st"
  "size_nm (shrink_p st) = size_nm st"
  by (simp_all add: doIndexes_p_def centroid_p_def reflection_p_def evaluate_all_p_def
      constrain_all_p_def doInitialize_p_def accept_p_def doEvaluate_def reevaluate_p_def
      accept_reflection_p_def expansion_p_def shrink_p_def Let_def)

lemma contraction_eq:
  assumes wf: "wf st" and nz: "size_nm st \<noteq> 0"
  shows "contraction fr st = Inr (contraction_p fr st)"
proof (cases "fr \<ge> f st ! vh st")
  case False
  moreover have "vh st < length (f st)"
    using wf by (simp add: wf_def)
  ultimately show ?thesis
    by (simp add: contraction_def contraction_p_def)
next
  case True
  define n where "n = dim st"
  define outside where "outside \<longleftrightarrow> fr < f st ! vg st \<and> fr \<ge> f st ! vh st"
  define c where "c = (if outside
                  then map (\<lambda>j. vm st ! j
                              + configContractionCoefficient st * (vr st ! j - vm st ! j))
                         [0..<n]
                  else map (\<lambda>j. vm st ! j
                              - configContractionCoefficient st * (vm st ! j - v st ! vg st ! j))
                         [0..<n])"
  define st1 where "st1 = st\<lparr>vc := constrain st c\<rparr>"
  define st2 where "st2 = snd (doEvaluate st1 (vc st1))"
  have len: "vh st < length (f st)" "vg st < length (f st)" "length (vm st) = n"
    "length (vr st) = n" "length (vc st) = n" "vg st < length (v st)" "length (v st ! vg st) = n"
    using wf by (simp_all add: wf_def n_def)
  have cond: "(if fr < f st ! vg st
               then andThen (rd (f st) (vh st)) (\<lambda>fh'. Inr (fr \<ge> fh')) else Inr False)
              = Inr outside"
    using len by (simp add: outside_def)
  have out: "for_le 0 (size_nm st - 1) (\<lambda>j c.
                   andThen
                     (andThen (rd (vm st) j) (\<lambda>m. andThen (rd (vr st) j) (\<lambda>r.
                        andThen (rd (vm st) j) (\<lambda>m'.
                          Inr (m + configContractionCoefficient st * (r - m'))))))
                     (\<lambda>y. wr c j y))
                   (vc st)
             = Inr (map (\<lambda>j. vm st ! j
                              + configContractionCoefficient st * (vr st ! j - vm st ! j))
                         [0..<n])"
    using combine_loop [of "vm st" n "vr st" "vm st" "vc st"
        "\<lambda>m r m'. m + configContractionCoefficient st * (r - m')"] len
    by (simp add: for_le_dim_pred [OF nz] n_def)
  have ins: "for_le 0 (size_nm st - 1) (\<lambda>j c.
                   andThen
                     (andThen (rd (vm st) j) (\<lambda>m. andThen (rd (vm st) j) (\<lambda>m'.
                        andThen (rd2 (v st) (vg st) j) (\<lambda>x.
                          Inr (m - configContractionCoefficient st * (m' - x))))))
                     (\<lambda>y. wr c j y))
                   (vc st)
             = Inr (map (\<lambda>j. vm st ! j
                              - configContractionCoefficient st * (vm st ! j - v st ! vg st ! j))
                         [0..<n])"
    using combine_loop [of "vm st" n "vm st" "v st ! vg st" "vc st"
        "\<lambda>m m' x. m - configContractionCoefficient st * (m' - x)"] len
    by (simp add: for_le_dim_pred [OF nz] n_def rd2_def)
  have lc: "length (constrain st c) = dim st"
    by (rule constrain_length [OF wf]) (simp add: c_def n_def)
  have wf2: "wf st2" "size_nm st2 \<noteq> 0" "length (vc st2) = dim st2"
    using wf nz lc by (simp_all add: st2_def st1_def wf_scratch wf_doEvaluate)
  have g2: "vg st2 < length (f st2)"
    using len by (simp add: st2_def st1_def)
  have "contraction fr st =
        andThen (if outside then Inr (map (\<lambda>j. vm st ! j
                              + configContractionCoefficient st * (vr st ! j - vm st ! j))
                         [0..<n])
                 else Inr (map (\<lambda>j. vm st ! j
                              - configContractionCoefficient st * (vm st ! j - v st ! vg st ! j))
                         [0..<n]))
           (\<lambda>c. let st1 = st\<lparr>vc := constrain st c\<rparr> in
                case doEvaluate st1 (vc st1) of (fc, st2) \<Rightarrow>
                  andThen (rd (f st2) (vg st2)) (\<lambda>fg'.
                    if fc < fg'
                    then andThen (accept (vc st2) fc st2) (\<lambda>st3. Inr ((True, False), st3))
                    else andThen (shrink st2) (\<lambda>st3. Inr ((True, True), st3))))"
    using True len by (simp add: contraction_def cond out ins)
  also have "\<dots> = (let st1 = st\<lparr>vc := constrain st c\<rparr> in
                case doEvaluate st1 (vc st1) of (fc, st2) \<Rightarrow>
                  andThen (rd (f st2) (vg st2)) (\<lambda>fg'.
                    if fc < fg'
                    then andThen (accept (vc st2) fc st2) (\<lambda>st3. Inr ((True, False), st3))
                    else andThen (shrink st2) (\<lambda>st3. Inr ((True, True), st3))))"
    by (simp add: c_def)
  also have "\<dots> = andThen (rd (f st2) (vg st2)) (\<lambda>fg'.
                    if evalFunc st1 (vc st1) < fg'
                    then andThen (accept (vc st2) (evalFunc st1 (vc st1)) st2)
                           (\<lambda>st3. Inr ((True, False), st3))
                    else andThen (shrink st2) (\<lambda>st3. Inr ((True, True), st3)))"
    by (simp add: Let_def split_def st1_def [symmetric] st2_def cong: if_cong)
  also have "\<dots> = (if evalFunc st1 (vc st1) < f st2 ! vg st2
                    then Inr ((True, False), accept_p (vc st2) (evalFunc st1 (vc st1)) st2)
                    else Inr ((True, True), shrink_p st2))"
    using g2 accept_eq [OF wf2] shrink_eq [OF wf2(1,2)] by simp
  also have "\<dots> = Inr (contraction_p fr st)"
    using True
    by (simp add: contraction_p_def Let_def st2_def st1_def c_def outside_def n_def)
  finally show ?thesis .
qed

lemma wf_contraction_p: "wf st \<Longrightarrow> wf (snd (contraction_p fr st))"
proof -
  assume wf: "wf st"
  show ?thesis
    using wf
    by (simp add: contraction_p_def Let_def wf_doEvaluate wf_scratch wf_accept_p wf_shrink_p
        constrain_length)
qed

lemma size_keep2 [simp]: "size_nm (snd (contraction_p fr st)) = size_nm st"
  by (simp add: contraction_p_def Let_def)

lemma iteration_eq:
  assumes wf: "wf st" and nz: "size_nm st \<noteq> 0"
  shows "iteration st = Inr (iteration_p st)"
proof -
  define st1 where "st1 = doIndexes_p st"
  define st2 where "st2 = centroid_p st1"
  define st3 where "st3 = reflection_p st2"
  define fr where "fr = evalFunc st3 (vr st3)"
  define st4 where "st4 = snd (doEvaluate st3 (vr st3))"
  define st5 where "st5 = snd (accept_reflection_p fr st4)"
  define st6 where "st6 = snd (expansion_p fr st5)"
  have w1: "wf st1" "size_nm st1 \<noteq> 0"
    using wf nz by (simp_all add: st1_def wf_doIndexes_p)
  have w2: "wf st2" "size_nm st2 \<noteq> 0"
    using w1 by (simp_all add: st2_def wf_centroid_p)
  have w3: "wf st3" "size_nm st3 \<noteq> 0"
    using w2 by (simp_all add: st3_def wf_reflection_p)
  have w4: "wf st4" "size_nm st4 \<noteq> 0"
    using w3 by (simp_all add: st4_def wf_doEvaluate)
  have w5: "wf st5" "size_nm st5 \<noteq> 0"
    using w4 by (simp_all add: st5_def wf_accept_reflection_p)
  have w6: "wf st6" "size_nm st6 \<noteq> 0"
    using w5 by (simp_all add: st6_def wf_expansion_p)
  have "iteration st =
        (case doEvaluate st3 (vr st3) of (fr, st4) \<Rightarrow>
         andThen (accept_reflection fr st4) (\<lambda>(b1, st5).
         andThen (expansion fr st5) (\<lambda>(b2, st6).
         andThen (contraction fr st6) (\<lambda>((b3, b4), st7).
           Inr (\<lparr>reflected = b1, expanded = b2, contracted = b3, shrunk = b4\<rparr>, st7)))))"
    unfolding iteration_def
    using doIndexes_eq [OF wf] centroid_eq [OF w1] reflection_eq [OF w2]
    by (simp add: st1_def [symmetric] st2_def [symmetric] st3_def [symmetric])
  also have "\<dots> = andThen (accept_reflection fr st4) (\<lambda>(b1, st5).
         andThen (expansion fr st5) (\<lambda>(b2, st6).
         andThen (contraction fr st6) (\<lambda>((b3, b4), st7).
           Inr (\<lparr>reflected = b1, expanded = b2, contracted = b3, shrunk = b4\<rparr>, st7))))"
    by (simp add: split_def fr_def st4_def)
  also have "\<dots> = andThen (expansion fr st5) (\<lambda>(b2, st6).
         andThen (contraction fr st6) (\<lambda>((b3, b4), st7).
           Inr (\<lparr>reflected = fst (accept_reflection_p fr st4), expanded = b2,
                 contracted = b3, shrunk = b4\<rparr>, st7)))"
    using accept_reflection_eq [OF w4] by (simp add: split_def st5_def)
  also have "\<dots> = andThen (contraction fr st6) (\<lambda>((b3, b4), st7).
           Inr (\<lparr>reflected = fst (accept_reflection_p fr st4),
                 expanded = fst (expansion_p fr st5),
                 contracted = b3, shrunk = b4\<rparr>, st7))"
    using expansion_eq [OF w5] by (simp add: split_def st6_def)
  also have "\<dots> = Inr (\<lparr>reflected = fst (accept_reflection_p fr st4),
                 expanded = fst (expansion_p fr st5),
                 contracted = fst (fst (contraction_p fr st6)),
                 shrunk = snd (fst (contraction_p fr st6))\<rparr>, snd (contraction_p fr st6))"
    using contraction_eq [OF w6] by (simp add: split_def)
  also have "\<dots> = Inr (iteration_p st)"
    by (simp add: iteration_p_def Let_def split_def st1_def st2_def st3_def st4_def st5_def
        st6_def fr_def)
  finally show ?thesis .
qed

lemma wf_iteration_p: "wf st \<Longrightarrow> wf (snd (iteration_p st))"
  by (simp add: iteration_p_def Let_def split_def wf_contraction_p wf_expansion_p
      wf_accept_reflection_p wf_doEvaluate wf_reflection_p wf_centroid_p wf_doIndexes_p)

lemma size_iteration_p [simp]: "size_nm (snd (iteration_p st)) = size_nm st"
  by (simp add: iteration_p_def Let_def split_def)

lemma exec_finish_eq:
  assumes wf: "wf st"
  shows "exec_finish it st = Inr (exec_finish_p it st)"
proof -
  define st1 where "st1 = doIndexes_p st"
  define st2 where "st2 = snd (doEvaluate st1 (v st1 ! vs st1))"
  define n where "n = dim st"
  have w1: "wf st1"
    using wf by (simp add: st1_def wf_doIndexes_p)
  then have len: "vs st1 < length (v st1)" "length (v st1 ! vs st1) = n"
    by (simp_all add: wf_def st1_def n_def)
  have "for_each [0..<n] (\<lambda>j mv. andThen (rd2 (v st1) (vs st1) j) (\<lambda>y. Inr (mv @ [y])))
          (map (\<lambda>j. v st1 ! vs st1 ! j) [0..<0])
        = Inr (map (\<lambda>j. v st1 ! vs st1 ! j) [0..<n])"
    by (rule for_each_upt_eq) (use len in simp_all)
  moreover have "map (\<lambda>j. v st1 ! vs st1 ! j) [0..<n] = v st1 ! vs st1"
    using len map_nth [of "v st1 ! vs st1"] by simp
  ultimately have loop: "for_lt (size_nm st2)
      (\<lambda>j mv. andThen (rd2 (v st2) (vs st2) j) (\<lambda>y. Inr (mv @ [y]))) [] = Inr (v st1 ! vs st1)"
    by (simp add: for_lt_dim st2_def st1_def n_def)
  have "exec_finish it st =
        (case doEvaluate st1 (v st1 ! vs st1) of (m, st2) \<Rightarrow>
         let r = (lastExecResults st2)\<lparr>res_min := m, res_evalCount := evalCount st2,
                   res_iterationCount := it, res_minValues := []\<rparr> in
         andThen
           (for_lt (size_nm st2) (\<lambda>j mv. andThen (rd2 (v st2) (vs st2) j) (\<lambda>y. Inr (mv @ [y])))
              (res_minValues r))
           (\<lambda>mv. Inr (st2\<lparr>lastExecResults := r\<lparr>res_minValues := mv\<rparr>\<rparr>)))"
    unfolding exec_finish_def
    using doIndexes_eq [OF wf] len by (simp add: st1_def [symmetric])
  also have "\<dots> = Inr (exec_finish_p it st)"
    using loop
    by (simp add: split_def Let_def exec_finish_p_def st1_def [symmetric] st2_def [symmetric])
      (simp add: st2_def)
  finally show ?thesis .
qed

lemma wf_exec_finish_p: "wf st \<Longrightarrow> wf (exec_finish_p it st)"
  by (simp add: exec_finish_p_def Let_def wf_doEvaluate wf_doIndexes_p)

subsection \<open>The blocks keep the callbacks and the configuration\<close>

lemma setup_doInitialize_p [simp]:
  "evalFunc (doInitialize_p start scale st) = evalFunc st"
  "constrainFunc (doInitialize_p start scale st) = constrainFunc st"
  "configMaxIterations (doInitialize_p start scale st) = configMaxIterations st"
  "configReflectionCoefficient (doInitialize_p start scale st) = configReflectionCoefficient st"
  "configContractionCoefficient (doInitialize_p start scale st) = configContractionCoefficient st"
  "configExpansionCoefficient (doInitialize_p start scale st) = configExpansionCoefficient st"
  by (simp_all add: doInitialize_p_def Let_def split_def)

lemma setup_constrain_all_p [simp]:
  "evalFunc (constrain_all_p st) = evalFunc st"
  "constrainFunc (constrain_all_p st) = constrainFunc st"
  "configMaxIterations (constrain_all_p st) = configMaxIterations st"
  "configReflectionCoefficient (constrain_all_p st) = configReflectionCoefficient st"
  "configContractionCoefficient (constrain_all_p st) = configContractionCoefficient st"
  "configExpansionCoefficient (constrain_all_p st) = configExpansionCoefficient st"
  by (simp_all add: constrain_all_p_def Let_def split_def)

lemma setup_evaluate_all_p [simp]:
  "evalFunc (evaluate_all_p st) = evalFunc st"
  "constrainFunc (evaluate_all_p st) = constrainFunc st"
  "configMaxIterations (evaluate_all_p st) = configMaxIterations st"
  "configReflectionCoefficient (evaluate_all_p st) = configReflectionCoefficient st"
  "configContractionCoefficient (evaluate_all_p st) = configContractionCoefficient st"
  "configExpansionCoefficient (evaluate_all_p st) = configExpansionCoefficient st"
  by (simp_all add: evaluate_all_p_def Let_def split_def)

lemma setup_exec_init_p [simp]:
  "evalFunc (exec_init_p start scale st) = evalFunc st"
  "constrainFunc (exec_init_p start scale st) = constrainFunc st"
  "configMaxIterations (exec_init_p start scale st) = configMaxIterations st"
  "configReflectionCoefficient (exec_init_p start scale st) = configReflectionCoefficient st"
  "configContractionCoefficient (exec_init_p start scale st) = configContractionCoefficient st"
  "configExpansionCoefficient (exec_init_p start scale st) = configExpansionCoefficient st"
  by (simp_all add: exec_init_p_def Let_def split_def)

lemma setup_doIndexes_p [simp]:
  "evalFunc (doIndexes_p st) = evalFunc st"
  "constrainFunc (doIndexes_p st) = constrainFunc st"
  "configMaxIterations (doIndexes_p st) = configMaxIterations st"
  "configReflectionCoefficient (doIndexes_p st) = configReflectionCoefficient st"
  "configContractionCoefficient (doIndexes_p st) = configContractionCoefficient st"
  "configExpansionCoefficient (doIndexes_p st) = configExpansionCoefficient st"
  by (simp_all add: doIndexes_p_def Let_def split_def)

lemma setup_centroid_p [simp]:
  "evalFunc (centroid_p st) = evalFunc st"
  "constrainFunc (centroid_p st) = constrainFunc st"
  "configMaxIterations (centroid_p st) = configMaxIterations st"
  "configReflectionCoefficient (centroid_p st) = configReflectionCoefficient st"
  "configContractionCoefficient (centroid_p st) = configContractionCoefficient st"
  "configExpansionCoefficient (centroid_p st) = configExpansionCoefficient st"
  by (simp_all add: centroid_p_def Let_def split_def)

lemma setup_reflection_p [simp]:
  "evalFunc (reflection_p st) = evalFunc st"
  "constrainFunc (reflection_p st) = constrainFunc st"
  "configMaxIterations (reflection_p st) = configMaxIterations st"
  "configReflectionCoefficient (reflection_p st) = configReflectionCoefficient st"
  "configContractionCoefficient (reflection_p st) = configContractionCoefficient st"
  "configExpansionCoefficient (reflection_p st) = configExpansionCoefficient st"
  by (simp_all add: reflection_p_def Let_def split_def)

lemma setup_accept_p [simp]:
  "evalFunc (accept_p x fx st) = evalFunc st"
  "constrainFunc (accept_p x fx st) = constrainFunc st"
  "configMaxIterations (accept_p x fx st) = configMaxIterations st"
  "configReflectionCoefficient (accept_p x fx st) = configReflectionCoefficient st"
  "configContractionCoefficient (accept_p x fx st) = configContractionCoefficient st"
  "configExpansionCoefficient (accept_p x fx st) = configExpansionCoefficient st"
  by (simp_all add: accept_p_def Let_def split_def)

lemma setup_accept_reflection_p [simp]:
  "evalFunc (snd (accept_reflection_p fr st)) = evalFunc st"
  "constrainFunc (snd (accept_reflection_p fr st)) = constrainFunc st"
  "configMaxIterations (snd (accept_reflection_p fr st)) = configMaxIterations st"
  "configReflectionCoefficient (snd (accept_reflection_p fr st)) = configReflectionCoefficient st"
  "configContractionCoefficient (snd (accept_reflection_p fr st)) = configContractionCoefficient st"
  "configExpansionCoefficient (snd (accept_reflection_p fr st)) = configExpansionCoefficient st"
  by (simp_all add: accept_reflection_p_def Let_def split_def)

lemma setup_expansion_p [simp]:
  "evalFunc (snd (expansion_p fr st)) = evalFunc st"
  "constrainFunc (snd (expansion_p fr st)) = constrainFunc st"
  "configMaxIterations (snd (expansion_p fr st)) = configMaxIterations st"
  "configReflectionCoefficient (snd (expansion_p fr st)) = configReflectionCoefficient st"
  "configContractionCoefficient (snd (expansion_p fr st)) = configContractionCoefficient st"
  "configExpansionCoefficient (snd (expansion_p fr st)) = configExpansionCoefficient st"
  by (simp_all add: expansion_p_def Let_def split_def)

lemma setup_reevaluate_p [simp]:
  "evalFunc (reevaluate_p i st) = evalFunc st"
  "constrainFunc (reevaluate_p i st) = constrainFunc st"
  "configMaxIterations (reevaluate_p i st) = configMaxIterations st"
  "configReflectionCoefficient (reevaluate_p i st) = configReflectionCoefficient st"
  "configContractionCoefficient (reevaluate_p i st) = configContractionCoefficient st"
  "configExpansionCoefficient (reevaluate_p i st) = configExpansionCoefficient st"
  by (simp_all add: reevaluate_p_def Let_def split_def)

lemma setup_shrink_p [simp]:
  "evalFunc (shrink_p st) = evalFunc st"
  "constrainFunc (shrink_p st) = constrainFunc st"
  "configMaxIterations (shrink_p st) = configMaxIterations st"
  "configReflectionCoefficient (shrink_p st) = configReflectionCoefficient st"
  "configContractionCoefficient (shrink_p st) = configContractionCoefficient st"
  "configExpansionCoefficient (shrink_p st) = configExpansionCoefficient st"
  by (simp_all add: shrink_p_def Let_def split_def)

lemma setup_contraction_p [simp]:
  "evalFunc (snd (contraction_p fr st)) = evalFunc st"
  "constrainFunc (snd (contraction_p fr st)) = constrainFunc st"
  "configMaxIterations (snd (contraction_p fr st)) = configMaxIterations st"
  "configReflectionCoefficient (snd (contraction_p fr st)) = configReflectionCoefficient st"
  "configContractionCoefficient (snd (contraction_p fr st)) = configContractionCoefficient st"
  "configExpansionCoefficient (snd (contraction_p fr st)) = configExpansionCoefficient st"
  by (simp_all add: contraction_p_def Let_def split_def)

lemma setup_iteration_p [simp]:
  "evalFunc (snd (iteration_p st)) = evalFunc st"
  "constrainFunc (snd (iteration_p st)) = constrainFunc st"
  "configMaxIterations (snd (iteration_p st)) = configMaxIterations st"
  "configReflectionCoefficient (snd (iteration_p st)) = configReflectionCoefficient st"
  "configContractionCoefficient (snd (iteration_p st)) = configContractionCoefficient st"
  "configExpansionCoefficient (snd (iteration_p st)) = configExpansionCoefficient st"
  by (simp_all add: iteration_p_def Let_def split_def)

lemma setup_exec_finish_p [simp]:
  "evalFunc (exec_finish_p it st) = evalFunc st"
  "constrainFunc (exec_finish_p it st) = constrainFunc st"
  "configMaxIterations (exec_finish_p it st) = configMaxIterations st"
  "configReflectionCoefficient (exec_finish_p it st) = configReflectionCoefficient st"
  "configContractionCoefficient (exec_finish_p it st) = configContractionCoefficient st"
  "configExpansionCoefficient (exec_finish_p it st) = configExpansionCoefficient st"
  by (simp_all add: exec_finish_p_def Let_def split_def)

lemma size_keep3 [simp]:
  "size_nm (exec_init_p start scale st) = size_nm st"
  "size_nm (exec_finish_p it st) = size_nm st"
  by (simp_all add: exec_init_p_def exec_finish_p_def Let_def)

lemma dim_keep [simp]:
  "dim (centroid_p st) = dim st"
  "dim (reflection_p st) = dim st"
  "dim (accept_p x fx st) = dim st"
  "dim (snd (accept_reflection_p fr st)) = dim st"
  "dim (snd (expansion_p fr st)) = dim st"
  "dim (shrink_p st) = dim st"
  "dim (snd (contraction_p fr st)) = dim st"
  "dim (snd (iteration_p st)) = dim st"
  "dim (exec_init_p start scale st) = dim st"
  "dim (exec_finish_p it st) = dim st"
  by (simp_all add: dim_def)

lemma constrain_keep [simp]:
  "constrain (doInitialize_p start scale st) = constrain st"
  "constrain (constrain_all_p st) = constrain st"
  "constrain (evaluate_all_p st) = constrain st"
  "constrain (exec_init_p start scale st) = constrain st"
  "constrain (doIndexes_p st) = constrain st"
  "constrain (centroid_p st) = constrain st"
  "constrain (reflection_p st) = constrain st"
  "constrain (accept_p x fx st) = constrain st"
  "constrain (snd (accept_reflection_p fr st)) = constrain st"
  "constrain (snd (expansion_p fr st)) = constrain st"
  "constrain (reevaluate_p i st) = constrain st"
  "constrain (shrink_p st) = constrain st"
  "constrain (snd (contraction_p fr st)) = constrain st"
  "constrain (snd (iteration_p st)) = constrain st"
  by (rule ext, simp add: constrain_def)+

section \<open>The loop\<close>

lemma exec_loop_unfold:
  assumes wf: "wf st" and nz: "size_nm st \<noteq> 0"
  shows "exec_loop tol it st =
         (if it + 1 \<le> configMaxIterations st
          then (if spread_p (snd (iteration_p st)) < tol
                then Some (Inr (it + 1, snd (iteration_p st)))
                else exec_loop tol (it + 1) (snd (iteration_p st)))
          else Some (Inr (it + 1, st)))"
  using iteration_eq [OF wf nz] spread_eq [OF wf_iteration_p [OF wf]]
  by (subst exec_loop.simps) (simp add: Let_def split_def)

text \<open>Partial correctness: what holds when the loop is entered and is kept by every trip
  holds at the loop head from which the loop is left.\<close>

lemma exec_loop_invariant:
  assumes res: "exec_loop tol it st = Some r"
    and I: "I it st"
    and wfI: "\<And>k s. I k s \<Longrightarrow> wf s \<and> size_nm s \<noteq> 0"
    and step: "\<And>k s. I k s \<Longrightarrow> k + 1 \<le> configMaxIterations s \<Longrightarrow>
                 I (k + 1) (snd (iteration_p s))"
  shows "left_by tol I r"
proof -
  have "I it st \<longrightarrow> left_by tol I r"
  proof (rule exec_loop.raw_induct [OF _ res])
    fix loop :: "real \<Rightarrow> u32 \<Rightarrow> NelderMead \<Rightarrow> (failure + u32 \<times> NelderMead) option"
      and tol' it st r
    assume IH: "\<And>a b c y. loop a b c = Some y \<Longrightarrow> I b c \<longrightarrow> left_by a I y"
      and eq: "(let it' = it + 1 in
                if it' \<le> configMaxIterations st then
                  (case iteration st of
                     Inl e \<Rightarrow> Some (Inl e)
                   | Inr (p, st') \<Rightarrow>
                       (case spread st' of
                          Inl e \<Rightarrow> Some (Inl e)
                        | Inr s \<Rightarrow> if s < tol' then Some (Inr (it', st'))
                                   else loop tol' it' st'))
                else Some (Inr (it', st))) = Some r"
    show "I it st \<longrightarrow> left_by tol' I r"
    proof
      assume Ist: "I it st"
      then have w: "wf st" "size_nm st \<noteq> 0"
        using wfI by blast+
      show "left_by tol' I r"
      proof (cases "it + 1 \<le> configMaxIterations st")
        case False
        with eq Ist show ?thesis
          unfolding left_by_def by (auto simp: Let_def)
      next
        case True
        show ?thesis
        proof (cases "spread_p (snd (iteration_p st)) < tol'")
          case conv: True
          with True eq have "r = Inr (it + 1, snd (iteration_p st))"
            using iteration_eq [OF w] spread_eq [OF wf_iteration_p [OF w(1)]]
            by (auto simp: Let_def split_def)
          with True conv Ist show ?thesis
            unfolding left_by_def by blast
        next
          case False
          with True eq have "loop tol' (it + 1) (snd (iteration_p st)) = Some r"
            using iteration_eq [OF w] spread_eq [OF wf_iteration_p [OF w(1)]]
            by (auto simp: Let_def split_def)
          then show ?thesis
            using IH step [OF Ist True] by blast
        qed
      qed
    qed
  qed
  with I show ?thesis by simp
qed

lemma word_not_top: "(it::u32) \<le> m \<Longrightarrow> m \<noteq> - 1 \<Longrightarrow> it \<noteq> - 1"
  by (auto simp: word_order.extremum_unique)

lemma word_step_unat: "(it::u32) < m \<Longrightarrow> unat (it + 1) = Suc (unat it)"
proof -
  assume "it < m"
  then have "it \<noteq> - 1"
    by (metis word_order.extremum_strict)
  then show ?thesis by (rule word_succ_unat)
qed

lemma word_step_le: "(it::u32) \<le> m \<Longrightarrow> m \<noteq> - 1 \<Longrightarrow> it + 1 \<le> m \<longleftrightarrow> it < m"
  using word_succ_unat [OF word_not_top, of it m]
  by (auto simp: word_le_nat_alt word_less_nat_alt)

text \<open>Total correctness when the bound is not \<^verbatim>\<open>0xFFFFFFFF\<close>: the loop is left.\<close>

lemma exec_loop_total:
  assumes I: "I it st"
    and wfI: "\<And>k s. I k s \<Longrightarrow> wf s \<and> size_nm s \<noteq> 0 \<and> configMaxIterations s = m"
    and step: "\<And>k s. I k s \<Longrightarrow> k + 1 \<le> configMaxIterations s \<Longrightarrow>
                 I (k + 1) (snd (iteration_p s))"
    and m: "m \<noteq> - 1" and le: "it \<le> m"
  shows "\<exists>r. exec_loop tol it st = Some r"
  using I le
proof (induction "unat m - unat it" arbitrary: it st rule: less_induct)
  case less
  have w: "wf st" "size_nm st \<noteq> 0" and cm: "configMaxIterations st = m"
    using wfI [OF less.prems(1)] by simp_all
  show ?case
  proof (cases "it < m")
    case False
    then have "\<not> it + 1 \<le> m"
      using word_step_le [OF less.prems(2) m] by simp
    then show ?thesis
      by (simp add: exec_loop_unfold [OF w] cm)
  next
    case True
    then have g: "it + 1 \<le> m"
      using word_step_le [OF less.prems(2) m] by simp
    have dec: "unat m - unat (it + 1) < unat m - unat it"
      using True word_step_unat [OF True] by (simp add: word_less_nat_alt)
    have nxt: "I (it + 1) (snd (iteration_p st))"
      using step [OF less.prems(1)] g cm by simp
    show ?thesis
      using g less.hyps [OF dec nxt g]
      by (simp add: exec_loop_unfold [OF w] cm)
  qed
qed

subsection \<open>The value table stays in step with the simplex\<close>

lemma synced_evaluate_all_p: "synced (evaluate_all_p st)"
  by (simp add: synced_def evaluate_all_p_def)

lemma synced_doIndexes_p: "synced st \<Longrightarrow> synced (doIndexes_p st)"
  by (simp add: synced_def doIndexes_p_def Let_def)

lemma synced_accept_p: "synced st \<Longrightarrow> synced (accept_p x (evalFunc st x) st)"
  by (simp add: synced_def accept_p_def map_update)

lemma synced_reevaluate_p: "synced st \<Longrightarrow> synced (reevaluate_p i st)"
  by (cases "i < length (v st)")
    (simp_all add: synced_def reevaluate_p_def Let_def map_update list_update_beyond not_less)

lemma synced_shrink_p: "synced (shrink_p st)"
  by (simp add: shrink_p_def Let_def synced_reevaluate_p synced_doIndexes_p
      synced_evaluate_all_p)

lemma synced_scratch:
  "synced (st\<lparr>vr := x\<rparr>) = synced st"
  "synced (st\<lparr>ve := x\<rparr>) = synced st"
  "synced (st\<lparr>vc := x\<rparr>) = synced st"
  "synced (st\<lparr>vm := x\<rparr>) = synced st"
  "synced (snd (doEvaluate st y)) = synced st"
  by (simp_all add: synced_def)

lemma synced_accept_reflection_p:
  "synced st \<Longrightarrow> synced (snd (accept_reflection_p (evalFunc st (vr st)) st))"
  by (simp add: accept_reflection_p_def synced_accept_p)

lemma vr_keep [simp]:
  "vr (accept_p x fx st) = vr st"
  "vr (snd (accept_reflection_p fr st)) = vr st"
  "vr (snd (expansion_p fr st)) = vr st"
  by (simp_all add: accept_p_def accept_reflection_p_def expansion_p_def Let_def)


lemma synced_expansion_p:
  "synced st \<Longrightarrow> synced (snd (expansion_p (evalFunc st (vr st)) st))"
proof -
  assume s: "synced st"
  have a: "synced (accept_p x (evalFunc st x) (snd (doEvaluate (st\<lparr>ve := e\<rparr>) e)))" for x e
    using synced_accept_p [of "snd (doEvaluate (st\<lparr>ve := e\<rparr>) e)" x] s
    by (simp add: synced_scratch)
  show ?thesis
    by (simp add: expansion_p_def Let_def a s)
qed

lemma synced_contraction_p:
  "synced st \<Longrightarrow> synced (snd (contraction_p fr st))"
proof -
  assume s: "synced st"
  have a: "synced (accept_p x (evalFunc st x) (snd (doEvaluate (st\<lparr>vc := c\<rparr>) c)))" for x c
    using synced_accept_p [of "snd (doEvaluate (st\<lparr>vc := c\<rparr>) c)" x] s
    by (simp add: synced_scratch)
  show ?thesis
    by (simp add: contraction_p_def Let_def a s synced_shrink_p)
qed

lemma synced_iteration_p: "synced st \<Longrightarrow> synced (snd (iteration_p st))"
proof -
  assume s: "synced st"
  define st3 where "st3 = reflection_p (centroid_p (doIndexes_p st))"
  define st4 where "st4 = snd (doEvaluate st3 (vr st3))"
  define fr where "fr = evalFunc st3 (vr st3)"
  have "synced st3"
    using s by (simp add: st3_def reflection_p_def centroid_p_def synced_scratch synced_doIndexes_p)
  then have "synced st4"
    by (simp add: st4_def synced_scratch)
  moreover have fr4: "fr = evalFunc st4 (vr st4)"
    by (simp add: fr_def st4_def)
  ultimately have s5: "synced (snd (accept_reflection_p fr st4))"
    by (simp add: synced_accept_reflection_p)
  have "fr = evalFunc (snd (accept_reflection_p fr st4)) (vr (snd (accept_reflection_p fr st4)))"
    using fr4 by simp
  with s5 have "synced (snd (expansion_p fr (snd (accept_reflection_p fr st4))))"
    using synced_expansion_p [of "snd (accept_reflection_p fr st4)"] by simp
  then have "synced (snd (contraction_p fr (snd (expansion_p fr (snd (accept_reflection_p fr st4))))))"
    by (rule synced_contraction_p)
  then show ?thesis
    by (simp add: iteration_p_def Let_def split_def st3_def st4_def fr_def)
qed

lemma synced_exec_init_p: "synced (exec_init_p start scale st)"
  by (simp add: exec_init_p_def synced_evaluate_all_p)

subsection \<open>States at the loop head and observation points\<close>

lemma loop_head_invariant:
  assumes "loop_head tol st0 it s" and "I st0"
    and wfI: "\<And>s. I s \<Longrightarrow> wf s \<and> size_nm s \<noteq> 0"
    and step: "\<And>s. I s \<Longrightarrow> I (snd (iteration_p s))"
  shows "I s"
  using assms(1,2)
proof (induction rule: loop_head.induct)
  case head_first
  then show ?case .
next
  case (head_next it st p st' s)
  then have "I st" by simp
  then have "iteration st = Inr (iteration_p st)" "I (snd (iteration_p st))"
    using wfI step iteration_eq by simp_all
  with head_next.hyps(3) show ?case by simp
qed

lemma observed_invariant:
  assumes obs: "observed start tol scale st s"
    and wf: "wf st" and len: "dim st \<le> length start"
    and I0: "I (exec_init_p start scale st)"
    and wfI: "\<And>s. I s \<Longrightarrow> wf s \<and> size_nm s \<noteq> 0"
    and step: "\<And>s. I s \<Longrightarrow> I (snd (iteration_p s))"
  shows "I s"
proof -
  let ?st1 = "exec_init_p start scale st"
  from obs have "s = ?st1 \<or> (\<exists>it sh p. loop_head tol ?st1 it sh \<and> iteration sh = Inr (p, s))"
    by (auto simp: observed_def exec_init_eq [OF wf len])
  then show ?thesis
  proof
    assume "s = ?st1"
    with I0 show ?thesis by simp
  next
    assume "\<exists>it sh p. loop_head tol ?st1 it sh \<and> iteration sh = Inr (p, s)"
    then obtain it sh p where h: "loop_head tol ?st1 it sh" and i: "iteration sh = Inr (p, s)"
      by blast
    have "I sh"
      using loop_head_invariant [OF h I0 wfI step] .
    then have "iteration sh = Inr (iteration_p sh)" "I (snd (iteration_p sh))"
      using wfI step iteration_eq by simp_all
    with i show ?thesis by simp
  qed
qed

subsection \<open>Blocks that leave the simplex alone\<close>

lemma v_keep [simp]:
  "v (doIndexes_p st) = v st"
  "v (centroid_p st) = v st"
  "v (reflection_p st) = v st"
  "v (evaluate_all_p st) = v st"
  by (simp_all add: doIndexes_p_def centroid_p_def reflection_p_def evaluate_all_p_def Let_def)


subsection \<open>The constructor\<close>

lemma ctor_rows:
  assumes "n \<noteq> - 1"
  shows "for_le 0 n (\<lambda>i w. upd w i (resize (unat n))) (replicate (unat (n + 1)) [])
         = Inr (replicate (unat (n + 1)) (replicate (unat n) 0))"
proof -
  define m where "m = unat n"
  define e where "e = replicate (Suc m) ([]::real list)"
  let ?G = "\<lambda>j. map (\<lambda>i. replicate m (0::real)) [0..<j] @ drop j e"
  have le: "length e = Suc m" and ne: "\<And>j. j < Suc m \<Longrightarrow> e ! j = []"
    unfolding e_def by (simp_all del: replicate_Suc)
  have "for_each [0..<Suc m] (\<lambda>i w. upd w i (resize m)) (?G 0) = Inr (?G (Suc m))"
  proof (rule for_each_upt_eq)
    fix j assume j: "j < Suc m"
    then have "?G j ! j = []" "j < length (?G j)"
      using le ne by (simp_all add: nth_append)
    then show "upd (?G j) j (resize m) = Inr (?G (Suc j))"
      using rows_step [of j e "\<lambda>i. replicate m (0::real)"] j le
      by (simp add: resize_def)
  qed simp
  moreover have "?G (Suc m) = replicate (Suc m) (replicate m 0)"
    using le by (simp add: map_replicate_const del: upt_Suc replicate_Suc)
  moreover have "unat (n + 1) = Suc m"
    using assms by (simp add: word_succ_unat m_def)
  ultimately show ?thesis
    using assms
    by (simp add: for_le_upto m_def [symmetric] e_def [symmetric] del: upt_Suc replicate_Suc)
qed

lemma ctor_eq:
  assumes "n \<noteq> - 1"
  shows "NelderMead_ctor n ef cf \<lparr>res_iterationCount = 0, res_evalCount = 0,
           res_minValues = [], res_min = 0\<rparr> = Inr (fresh n ef cf)"
  unfolding NelderMead_ctor_def ctor_rows [OF assms] by (simp add: fresh_def)

lemma for_each_first_fails: "body j s = Inl e \<Longrightarrow> for_each (j # js) body s = Inl e"
  by simp

lemma ctor_top: "NelderMead_ctor (- 1) ef cf u = Inl OutOfRange"
proof -
  have "[0..<2 ^ 32] = 0 # [Suc 0..<2 ^ 32]"
    by (rule upt_conv_Cons) simp
  then obtain js :: "nat list" where js: "[0..<2 ^ 32] = 0 # js"
    by blast
  have e: "replicate (unat (- 1 + 1 :: u32)) ([]::real list) = []"
    by simp
  have "for_each [0..<2 ^ 32] (\<lambda>i w. upd w i (resize (unat (- 1 :: u32)))) ([]::real list list)
        = Inl OutOfRange"
    unfolding js by (rule for_each_first_fails) (simp add: upd_def rd_def)
  then have "for_le 0 (- 1) (\<lambda>i w. upd w i (resize (unat (- 1 :: u32)))) ([]::real list list)
        = Inl OutOfRange"
    unfolding for_le_def by (simp only: simp_thms if_True sum.case)
  then show ?thesis
    unfolding NelderMead_ctor_def e by (simp only: andThen_Inl)
qed

lemma ctor_wf:
  assumes "NelderMead_ctor n ef cf u = Inr st"
    and "\<And>c x. cf = Some c \<Longrightarrow> length x = unat n \<Longrightarrow> length (c x) = unat n"
  shows "wf st \<and> size_nm st = n \<and> evalFunc st = ef \<and> constrainFunc st = cf"
proof (cases "n = - 1")
  case True
  with assms(1) show ?thesis by (simp add: ctor_top)
next
  case False
  have "NelderMead_ctor n ef cf u =
        Inr ((fresh n ef cf)\<lparr>lastExecResults := u\<lparr>res_minValues := []\<rparr>\<rparr>)"
    unfolding NelderMead_ctor_def ctor_rows [OF False] by (simp add: fresh_def)
  with assms(1) have "st = (fresh n ef cf)\<lparr>lastExecResults := u\<lparr>res_minValues := []\<rparr>\<rparr>"
    by simp
  then show ?thesis
    using False assms(2) by (simp add: fresh_def wf_def dim_def word_succ_unat)
qed

lemma wf_fresh:
  assumes "n \<noteq> - 1"
    and "\<And>c x. cf = Some c \<Longrightarrow> length x = unat n \<Longrightarrow> length (c x) = unat n"
  shows "wf (fresh n ef cf)"
  using assms by (simp add: fresh_def wf_def dim_def word_succ_unat)

lemma fresh_sel [simp]:
  "size_nm (fresh n ef cf) = n"
  "evalFunc (fresh n ef cf) = ef"
  "constrainFunc (fresh n ef cf) = cf"
  "configMaxIterations (fresh n ef cf) = 1000"
  "configReflectionCoefficient (fresh n ef cf) = 1"
  "configContractionCoefficient (fresh n ef cf) = 1 / 2"
  "configExpansionCoefficient (fresh n ef cf) = 2"
  "dim (fresh n ef cf) = unat n"
  "invocations (fresh n ef cf) = 0"
  by (simp_all add: fresh_def dim_def)

lemma myConstraints_length [simp]: "length (myConstraints x) = length x"
  by (simp add: myConstraints_def)


subsection \<open>Instances used as witnesses\<close>

lemma observed_first_trip:
  assumes wf: "wf st" and nz: "size_nm st \<noteq> 0" and len: "dim st \<le> length start"
    and one: "1 \<le> configMaxIterations st"
  shows "observed start tol scale st (snd (iteration_p (exec_init_p start scale st)))"
proof -
  let ?st1 = "exec_init_p start scale st"
  have "wf ?st1" "size_nm ?st1 \<noteq> 0"
    using wf nz by (simp_all add: wf_exec_init_p)
  then have "iteration ?st1 = Inr (fst (iteration_p ?st1), snd (iteration_p ?st1))"
    by (simp add: iteration_eq)
  moreover have "loop_head tol ?st1 0 ?st1"
    by (rule head_first)
  moreover have "0 + 1 \<le> configMaxIterations ?st1"
    using one by simp
  ultimately show ?thesis
    unfolding observed_def using exec_init_eq [OF wf len] by blast
qed

lemma wf_line [simp]: "wf (fresh 1 ef None)"
  by (rule wf_fresh) simp_all

lemma wf_line_clamped [simp]: "wf (fresh 1 ef (Some myConstraints))"
  by (rule wf_fresh) simp_all

lemma unat_one32 [simp]: "unat (1::u32) = 1"
  by simp

lemmas eval_defs = exec_init_p_def doInitialize_p_def constrain_all_p_def evaluate_all_p_def
  fresh_def Let_def dim_def constrain_None constrain_Some iteration_p_def doIndexes_p_def
  arg_scan_def centroid_p_def reflection_p_def doEvaluate_def accept_reflection_p_def
  accept_p_def expansion_p_def contraction_p_def shrink_p_def shrink_rows_def reevaluate_p_def
  spread_p_def exec_finish_p_def split_def

lemma wf_setMaxIterations [simp]: "wf (setMaxIterations m st) = wf st"
  by (simp add: setMaxIterations_def)

lemma setMaxIterations_sel [simp]:
  "size_nm (setMaxIterations m st) = size_nm st"
  "dim (setMaxIterations m st) = dim st"
  "configMaxIterations (setMaxIterations m st) = m"
  "evalFunc (setMaxIterations m st) = evalFunc st"
  "constrainFunc (setMaxIterations m st) = constrainFunc st"
  "invocations (setMaxIterations m st) = invocations st"
  by (simp_all add: setMaxIterations_def)

subsection \<open>What the scans of doIndexes find\<close>

lemma arg_scan_spec:
  fixes key :: "real \<Rightarrow> real"
  assumes b: "\<And>a c. better a c \<longleftrightarrow> ok a \<and> key c < key a"
  shows "(\<forall>j<m. ok (xs ! j) \<longrightarrow> key (xs ! j) \<le> key (xs ! arg_scan better xs [0..<m] i0))
       \<and> key (xs ! i0) \<le> key (xs ! arg_scan better xs [0..<m] i0)
       \<and> (arg_scan better xs [0..<m] i0 = i0
          \<or> (arg_scan better xs [0..<m] i0 < m
             \<and> ok (xs ! arg_scan better xs [0..<m] i0)
             \<and> key (xs ! i0) < key (xs ! arg_scan better xs [0..<m] i0)
             \<and> (\<forall>j < arg_scan better xs [0..<m] i0.
                   ok (xs ! j) \<longrightarrow> key (xs ! j) < key (xs ! arg_scan better xs [0..<m] i0))))"
proof (induction m)
  case 0
  show ?case by (simp add: arg_scan_def)
next
  case (Suc m)
  define r where "r = arg_scan better xs [0..<m] i0"
  have IH1: "\<And>j. j < m \<Longrightarrow> ok (xs ! j) \<Longrightarrow> key (xs ! j) \<le> key (xs ! r)"
    and IH2: "key (xs ! i0) \<le> key (xs ! r)"
    and IH3: "r = i0 \<or> (r < m \<and> ok (xs ! r) \<and> key (xs ! i0) < key (xs ! r)
                \<and> (\<forall>j < r. ok (xs ! j) \<longrightarrow> key (xs ! j) < key (xs ! r)))"
    using Suc.IH by (simp_all add: r_def)
  show ?case
  proof (cases "ok (xs ! m) \<and> key (xs ! r) < key (xs ! m)")
    case True
    then have e: "arg_scan better xs [0..<Suc m] i0 = m"
      by (simp add: arg_scan_snoc b r_def [symmetric] del: upt_Suc)
    have 1: "\<forall>j<Suc m. ok (xs ! j) \<longrightarrow> key (xs ! j) \<le> key (xs ! m)"
    proof (intro allI impI)
      fix j assume "j < Suc m" "ok (xs ! j)"
      then show "key (xs ! j) \<le> key (xs ! m)"
        using IH1 [of j] True by (cases "j = m") auto
    qed
    have 2: "key (xs ! i0) < key (xs ! m)"
      using IH2 True by simp
    have 3: "\<forall>j<m. ok (xs ! j) \<longrightarrow> key (xs ! j) < key (xs ! m)"
    proof (intro allI impI)
      fix j assume "j < m" "ok (xs ! j)"
      then show "key (xs ! j) < key (xs ! m)"
        using IH1 [of j] True by simp
    qed
    show ?thesis
      unfolding e using 1 2 3 True by simp
  next
    case False
    then have e: "arg_scan better xs [0..<Suc m] i0 = r"
      by (auto simp: arg_scan_snoc b r_def [symmetric] simp del: upt_Suc)
    have 1: "\<forall>j<Suc m. ok (xs ! j) \<longrightarrow> key (xs ! j) \<le> key (xs ! r)"
    proof (intro allI impI)
      fix j assume "j < Suc m" "ok (xs ! j)"
      then show "key (xs ! j) \<le> key (xs ! r)"
        using IH1 [of j] False by (cases "j = m") auto
    qed
    have 3: "r = i0 \<or> (r < Suc m \<and> ok (xs ! r) \<and> key (xs ! i0) < key (xs ! r)
                \<and> (\<forall>j < r. ok (xs ! j) \<longrightarrow> key (xs ! j) < key (xs ! r)))"
      using IH3 by auto
    show ?thesis
      unfolding e using 1 IH2 3 by simp
  qed
qed

lemma doIndexes_p_roles:
  assumes wf: "wf st"
  defines "t \<equiv> f st" and "n \<equiv> dim st"
  defines "s \<equiv> vs (doIndexes_p st)" and "h \<equiv> vh (doIndexes_p st)"
    and "g \<equiv> vg (doIndexes_p st)"
  shows "s \<le> n \<and> h \<le> n \<and> g \<le> n"
    and "\<forall>j \<le> n. t ! s \<le> t ! j \<and> t ! j \<le> t ! g"
    and "if \<forall>j \<le> n. t ! vs st \<le> t ! j then s = vs st else \<forall>j < s. t ! s < t ! j"
    and "if \<forall>j \<le> n. t ! j \<le> t ! vg st then g = vg st else \<forall>j < g. t ! j < t ! g"
    and "if \<exists>j \<le> n. t ! s < t ! j \<and> t ! j < t ! g
         then t ! s < t ! h \<and> t ! h < t ! g \<and> (\<forall>j \<le> n. t ! j < t ! g \<longrightarrow> t ! j \<le> t ! h)
              \<and> (\<forall>j < h. t ! j \<noteq> t ! h)
         else h = s"
proof -
  have g_def': "g = arg_scan (\<lambda>a b. a > b) t [0..<Suc n] (vg st)"
    and s_def': "s = arg_scan (\<lambda>a b. a < b) t [0..<Suc n] (vs st)"
    and h_def': "h = arg_scan (\<lambda>a b. a > b \<and> a < t ! g) t [0..<Suc n] s"
    by (simp_all add: g_def s_def h_def t_def n_def doIndexes_p_def Let_def del: upt_Suc)
  have i0: "vs st \<le> n" "vg st \<le> n"
    using wf by (simp_all add: wf_def n_def)
  show bounds: "s \<le> n \<and> h \<le> n \<and> g \<le> n"
    using wf_doIndexes_p [OF wf] by (simp add: wf_def s_def h_def g_def n_def)
  have G: "(\<forall>j<Suc n. t ! j \<le> t ! g) \<and> t ! vg st \<le> t ! g
       \<and> (g = vg st \<or> (g < Suc n \<and> t ! vg st < t ! g \<and> (\<forall>j < g. t ! j < t ! g)))"
    using arg_scan_spec [of "\<lambda>a b. a > b" "\<lambda>_. True" "\<lambda>a. a" "Suc n" t "vg st"]
    unfolding g_def' [symmetric] by simp
  have S: "(\<forall>j<Suc n. t ! s \<le> t ! j) \<and> t ! s \<le> t ! vs st
       \<and> (s = vs st \<or> (s < Suc n \<and> t ! s < t ! vs st \<and> (\<forall>j < s. t ! s < t ! j)))"
    using arg_scan_spec [of "\<lambda>a b. a < b" "\<lambda>_. True" "\<lambda>a. - a" "Suc n" t "vs st"]
    unfolding s_def' [symmetric] by simp
  have H: "(\<forall>j<Suc n. t ! j < t ! g \<longrightarrow> t ! j \<le> t ! h) \<and> t ! s \<le> t ! h
       \<and> (h = s \<or> (h < Suc n \<and> t ! h < t ! g \<and> t ! s < t ! h
                    \<and> (\<forall>j < h. t ! j < t ! g \<longrightarrow> t ! j < t ! h)))"
    using arg_scan_spec [of "\<lambda>a b. a > b \<and> a < t ! g" "\<lambda>a. a < t ! g" "\<lambda>a. a" "Suc n" t s]
    unfolding h_def' [symmetric] by auto
  have G1: "\<And>j. j \<le> n \<Longrightarrow> t ! j \<le> t ! g"
    and G3: "g = vg st \<or> (t ! vg st < t ! g \<and> (\<forall>j < g. t ! j < t ! g))"
    using G unfolding less_Suc_eq_le by blast+
  have S1: "\<And>j. j \<le> n \<Longrightarrow> t ! s \<le> t ! j"
    and S3: "s = vs st \<or> (t ! s < t ! vs st \<and> (\<forall>j < s. t ! s < t ! j))"
    using S unfolding less_Suc_eq_le by blast+
  have H1: "\<And>j. j \<le> n \<Longrightarrow> t ! j < t ! g \<Longrightarrow> t ! j \<le> t ! h"
    and H3: "h = s \<or> (t ! h < t ! g \<and> t ! s < t ! h
                    \<and> (\<forall>j < h. t ! j < t ! g \<longrightarrow> t ! j < t ! h))"
    using H unfolding less_Suc_eq_le by blast+
  show "\<forall>j \<le> n. t ! s \<le> t ! j \<and> t ! j \<le> t ! g"
    using G1 S1 by simp
  show "if \<forall>j \<le> n. t ! vs st \<le> t ! j then s = vs st else \<forall>j < s. t ! s < t ! j"
  proof (cases "\<forall>j \<le> n. t ! vs st \<le> t ! j")
    case True
    then have "t ! vs st \<le> t ! s"
      using bounds by simp
    then have "s = vs st"
      using S3 by (simp add: not_less [symmetric])
    then show ?thesis by (simp only: if_P [OF True])
  next
    case False
    then obtain j where j: "j \<le> n" "t ! j < t ! vs st"
      by (auto simp: not_le)
    have "t ! s < t ! vs st"
      using S1 [OF j(1)] j(2) by simp
    then have "s \<noteq> vs st" by auto
    then have "\<forall>j < s. t ! s < t ! j"
      using S3 by simp
    then show ?thesis by (simp only: if_not_P [OF False])
  qed
  show "if \<forall>j \<le> n. t ! j \<le> t ! vg st then g = vg st else \<forall>j < g. t ! j < t ! g"
  proof (cases "\<forall>j \<le> n. t ! j \<le> t ! vg st")
    case True
    then have "t ! g \<le> t ! vg st"
      using bounds by simp
    then have "g = vg st"
      using G3 by (simp add: not_less [symmetric])
    then show ?thesis by (simp only: if_P [OF True])
  next
    case False
    then obtain j where j: "j \<le> n" "t ! vg st < t ! j"
      by (auto simp: not_le)
    have "t ! vg st < t ! g"
      using G1 [OF j(1)] j(2) by simp
    then have "g \<noteq> vg st" by auto
    then have "\<forall>j < g. t ! j < t ! g"
      using G3 by simp
    then show ?thesis by (simp only: if_not_P [OF False])
  qed
  show "if \<exists>j \<le> n. t ! s < t ! j \<and> t ! j < t ! g
         then t ! s < t ! h \<and> t ! h < t ! g \<and> (\<forall>j \<le> n. t ! j < t ! g \<longrightarrow> t ! j \<le> t ! h)
              \<and> (\<forall>j < h. t ! j \<noteq> t ! h)
         else h = s"
  proof (cases "\<exists>j \<le> n. t ! s < t ! j \<and> t ! j < t ! g")
    case True
    then obtain j where j: "j \<le> n" "t ! s < t ! j" "t ! j < t ! g"
      by blast
    have "t ! s < t ! h"
      using H1 [OF j(1,3)] j(2) by simp
    then have "h \<noteq> s" by auto
    then have H': "t ! h < t ! g" "t ! s < t ! h"
      "\<forall>j < h. t ! j < t ! g \<longrightarrow> t ! j < t ! h"
      using H3 by simp_all
    have "t ! j \<noteq> t ! h" if "j < h" for j
    proof
      assume e: "t ! j = t ! h"
      then have "t ! j < t ! g" using H'(1) by simp
      then have "t ! j < t ! h" using H'(3) that by simp
      with e show False by simp
    qed
    then have "t ! s < t ! h \<and> t ! h < t ! g \<and> (\<forall>j \<le> n. t ! j < t ! g \<longrightarrow> t ! j \<le> t ! h)
              \<and> (\<forall>j < h. t ! j \<noteq> t ! h)"
      using H' H1 by blast
    then show ?thesis by (simp only: if_P [OF True]) blast
  next
    case False
    have "h = s"
    proof (rule ccontr)
      assume "h \<noteq> s"
      then have "t ! h < t ! g" "t ! s < t ! h"
        using H3 by simp_all
      moreover have "h \<le> n" using bounds by simp
      ultimately show False using False by blast
    qed
    then show ?thesis by (simp only: if_not_P [OF False])
  qed
qed

lemma doIndexes_p_depends:
  assumes "size_nm a = size_nm b" "f a = f b" "vs a = vs b" "vg a = vg b"
  shows "roles (doIndexes_p a) = roles (doIndexes_p b)"
  using assms by (simp add: roles_def doIndexes_p_def Let_def dim_def)

lemma frame_doIndexes_p [simp]:
  "f (doIndexes_p st) = f st"
  by (simp add: doIndexes_p_def Let_def)

subsection \<open>The statistic of the convergence test\<close>

lemma fold_add_sum: "fold (\<lambda>j a. a + g j) [0..<m] (0::real) = (\<Sum>j<m. g j)"
  by (induction m) simp_all

lemma spread_p_sum:
  "spread_p st =
     sqrt (\<Sum>j \<le> dim st. (f st ! j - (\<Sum>k \<le> dim st. f st ! k) / real (dim st + 1)) ^ 2
                             / real (dim st))"
  unfolding spread_p_def Let_def fold_add_sum lessThan_Suc_atMost by simp

subsection \<open>Runs of exec on well-formed instances\<close>

lemma left_by_wf:
  assumes "left_by tol I r" and wfI: "\<And>k s. I k s \<Longrightarrow> wf s \<and> size_nm s \<noteq> 0"
  shows "\<exists>it s2. r = Inr (it, s2) \<and> wf s2 \<and> size_nm s2 \<noteq> 0"
  using assms unfolding left_by_def by (auto simp: wf_iteration_p)

lemma exec_unfold:
  assumes "wf st" and "dim st \<le> length start"
  shows "exec start tol scale st =
     (case exec_loop tol 0 (exec_init_p start scale st) of
        None \<Rightarrow> None
      | Some (Inl e) \<Rightarrow> Some (Inl e)
      | Some (Inr (it, st2)) \<Rightarrow> Some (exec_finish it st2))"
  by (simp add: exec_def exec_init_eq [OF assms])

lemma exec_result:
  assumes wf: "wf st" and len: "dim st \<le> length start"
    and res: "exec start tol scale st = Some r"
    and I0: "I 0 (exec_init_p start scale st)"
    and wfI: "\<And>k s. I k s \<Longrightarrow> wf s \<and> size_nm s \<noteq> 0"
    and step: "\<And>k s. I k s \<Longrightarrow> k + 1 \<le> configMaxIterations s \<Longrightarrow>
                 I (k + 1) (snd (iteration_p s))"
  shows "\<exists>it s2. exec_loop tol 0 (exec_init_p start scale st) = Some (Inr (it, s2))
           \<and> left_by tol I (Inr (it, s2)) \<and> wf s2 \<and> r = Inr (exec_finish_p it s2)"
proof -
  from res obtain r' where loop: "exec_loop tol 0 (exec_init_p start scale st) = Some r'"
    by (auto simp: exec_unfold [OF wf len] split: option.splits)
  have lb: "left_by tol I r'"
    by (rule exec_loop_invariant [OF loop I0 wfI step])
  have "\<exists>it s2. r' = Inr (it, s2) \<and> wf s2 \<and> size_nm s2 \<noteq> 0"
    by (rule left_by_wf [where I = I, OF lb]) (rule wfI)
  then obtain it s2 where r': "r' = Inr (it, s2)" and w2: "wf s2"
    by blast
  have "r = Inr (exec_finish_p it s2)"
    using res by (simp add: exec_unfold [OF wf len] loop r' exec_finish_eq [OF w2])
  with loop lb r' w2 show ?thesis by blast
qed

lemma spread_p_nonneg: "0 \<le> spread_p st"
  unfolding spread_p_sum by (intro real_sqrt_ge_zero sum_nonneg divide_nonneg_nonneg) simp_all

lemma exec_loop_diverges:
  assumes wf: "wf st" and nz: "size_nm st \<noteq> 0"
    and top: "configMaxIterations st = - 1" and tol: "tol \<le> 0"
  shows "exec_loop tol it st = None"
proof (rule ccontr)
  assume "exec_loop tol it st \<noteq> None"
  then obtain r where res: "exec_loop tol it st = Some r"
    by blast
  define I where "I = (\<lambda>(k::u32) s. wf s \<and> size_nm s \<noteq> 0 \<and> configMaxIterations s = - 1)"
  have "left_by tol I r"
  proof (rule exec_loop_invariant [OF res])
    show "I it st"
      using wf nz top by (simp add: I_def)
    show "wf s \<and> size_nm s \<noteq> 0" if "I k s" for k s
      using that by (simp add: I_def)
    show "I (k + 1) (snd (iteration_p s))" if "I k s" for k s
      using that by (simp add: I_def wf_iteration_p)
  qed
  then obtain k s where "I k s"
    and "(\<not> k + 1 \<le> configMaxIterations s) \<or> spread_p (snd (iteration_p s)) < tol"
    unfolding left_by_def by blast
  then show False
    using spread_p_nonneg [of "snd (iteration_p s)"] tol by (auto simp: I_def)
qed

lemma exec_init_p_config [simp]:
  "configMaxIterations (exec_init_p start scale st) = configMaxIterations st"
  by simp

subsection \<open>Counting the calls of the objective\<close>

lemma adds_trans: "adds j a b \<Longrightarrow> adds k b c \<Longrightarrow> adds (j + k) a c"
  by (simp add: adds_def)

lemma adds_refl: "adds 0 a a"
  by (simp add: adds_def)

lemma adds_leaf:
  "adds 0 st (doIndexes_p st)"
  "adds 0 st (centroid_p st)"
  "adds 0 st (reflection_p st)"
  "adds 0 st (accept_p x fx st)"
  "adds 0 st (snd (accept_reflection_p fr st))"
  "adds (Suc 0) st (snd (doEvaluate st x))"
  "adds (Suc (dim st)) st (evaluate_all_p st)"
  "adds (Suc 0) st (reevaluate_p i st)"
  by (simp_all add: adds_def doIndexes_p_def centroid_p_def reflection_p_def accept_p_def
      accept_reflection_p_def evaluate_all_p_def reevaluate_p_def Let_def)

lemma adds_scratch:
  "adds k (st\<lparr>v := w\<rparr>) b = adds k st b"
  "adds k (st\<lparr>ve := x\<rparr>) b = adds k st b"
  "adds k (st\<lparr>vc := x\<rparr>) b = adds k st b"
  by (simp_all add: adds_def)

lemma adds_shrink_p: "adds (dim st + 3) st (shrink_p st)"
proof -
  define st1 where "st1 = evaluate_all_p (st\<lparr>v := shrink_rows st\<rparr>)"
  define st2 where "st2 = doIndexes_p st1"
  define st4 where "st4 = reevaluate_p (vg st2) st2"
  have "adds (Suc (dim st)) st st1"
    using adds_leaf(7) [of "st\<lparr>v := shrink_rows st\<rparr>"] by (simp add: st1_def adds_scratch)
  moreover have "adds 0 st1 st2" "adds (Suc 0) st2 st4"
    "adds (Suc 0) st4 (reevaluate_p (vh st4) st4)"
    unfolding st2_def st4_def by (rule adds_leaf)+
  ultimately have "adds (dim st + 3) st (reevaluate_p (vh st4) st4)"
    by (simp add: adds_def)
  then show ?thesis
    by (simp add: shrink_p_def Let_def st1_def st2_def st4_def)
qed

lemma adds_expansion_p:
  "adds (if fst (expansion_p fr st) then 1 else 0) st (snd (expansion_p fr st))"
proof (cases "fr < f st ! vs st")
  case False
  then show ?thesis
    by (simp add: expansion_p_def adds_refl)
next
  case True
  define e where "e = constrain st
                     (map (\<lambda>j. vm st ! j + configExpansionCoefficient st * (vr st ! j - vm st ! j))
                        [0..<dim st])"
  define st2 where "st2 = snd (doEvaluate (st\<lparr>ve := e\<rparr>) e)"
  have "adds (Suc 0) st st2"
    using adds_leaf(6) [of "st\<lparr>ve := e\<rparr>" e] by (simp add: st2_def adds_scratch)
  moreover have "adds 0 st2 (accept_p x fx st2)" for x fx
    by (rule adds_leaf)
  ultimately have "adds (Suc 0) st (accept_p x fx st2)" for x fx
    by (simp add: adds_def)
  then show ?thesis
    using True by (simp add: expansion_p_def Let_def e_def st2_def)
qed

lemma adds_contraction_p:
  "adds ((if fst (fst (contraction_p fr st)) then 1 else 0)
         + (if snd (fst (contraction_p fr st)) then dim st + 3 else 0))
     st (snd (contraction_p fr st))"
proof (cases "fr \<ge> f st ! vh st")
  case False
  then show ?thesis
    by (simp add: contraction_p_def adds_refl)
next
  case True
  define c where "c = constrain st (if fr < f st ! vg st \<and> fr \<ge> f st ! vh st
                  then map (\<lambda>j. vm st ! j
                              + configContractionCoefficient st * (vr st ! j - vm st ! j))
                         [0..<dim st]
                  else map (\<lambda>j. vm st ! j
                              - configContractionCoefficient st * (vm st ! j - v st ! vg st ! j))
                         [0..<dim st])"
  define st2 where "st2 = snd (doEvaluate (st\<lparr>vc := c\<rparr>) c)"
  have a: "adds (Suc 0) st st2"
    using adds_leaf(6) [of "st\<lparr>vc := c\<rparr>" c] by (simp add: st2_def adds_scratch)
  have "adds (Suc 0) st (accept_p x fx st2)" for x fx
    using a adds_leaf(4) [of st2 x fx] by (simp add: adds_def)
  moreover have "adds (Suc 0 + (dim st + 3)) st (shrink_p st2)"
    using a adds_shrink_p [of st2] by (simp add: adds_def st2_def)
  ultimately show ?thesis
    using True by (simp add: contraction_p_def Let_def c_def st2_def)
qed

lemma adds_iteration_p:
  "adds (evals_of (dim st) (fst (iteration_p st))) st (snd (iteration_p st))"
proof -
  define st3 where "st3 = reflection_p (centroid_p (doIndexes_p st))"
  define fr where "fr = evalFunc st3 (vr st3)"
  define st4 where "st4 = snd (doEvaluate st3 (vr st3))"
  define st5 where "st5 = snd (accept_reflection_p fr st4)"
  define st6 where "st6 = snd (expansion_p fr st5)"
  define st7 where "st7 = snd (contraction_p fr st6)"
  define b2 where "b2 = fst (expansion_p fr st5)"
  define b3 where "b3 = fst (fst (contraction_p fr st6))"
  define b4 where "b4 = snd (fst (contraction_p fr st6))"
  have "adds 0 st st3"
    using adds_leaf(1) [of st] adds_leaf(2) [of "doIndexes_p st"]
      adds_leaf(3) [of "centroid_p (doIndexes_p st)"]
    by (simp add: adds_def st3_def)
  moreover have "adds (Suc 0) st3 st4" "adds 0 st4 st5"
    unfolding st4_def st5_def by (rule adds_leaf)+
  moreover have "adds (if b2 then 1 else 0) st5 st6"
    unfolding st6_def b2_def by (rule adds_expansion_p)
  moreover have "adds ((if b3 then 1 else 0) + (if b4 then dim st + 3 else 0)) st6 st7"
  proof -
    have d: "dim st6 = dim st"
      by (simp add: st6_def st5_def st4_def st3_def)
    show ?thesis
      using adds_contraction_p [of fr st6] unfolding st7_def b3_def b4_def d .
  qed
  ultimately have "adds (1 + (if b2 then 1 else 0)
                        + (if b3 then 1 else 0) + (if b4 then dim st + 3 else 0)) st st7"
    by (simp add: adds_def)
  moreover have "iteration_p st
                 = (\<lparr>reflected = fst (accept_reflection_p fr st4), expanded = b2,
                       contracted = b3, shrunk = b4\<rparr>, st7)"
    by (simp add: iteration_p_def Let_def split_def st3_def st4_def st5_def st6_def st7_def
        fr_def b2_def b3_def b4_def)
  ultimately show ?thesis
    by (simp add: evals_of_def)
qed

lemma exec_init_p_counts:
  "evalCount (exec_init_p start scale st) = of_nat (dim st + 1)"
  "invocations (exec_init_p start scale st) = invocations st + (dim st + 1)"
  by (simp_all add: exec_init_p_def evaluate_all_p_def constrain_all_p_def doInitialize_p_def
      Let_def)

lemma exec_finish_p_counts:
  "res_evalCount (lastExecResults (exec_finish_p it st)) = evalCount st + 1"
  "invocations (exec_finish_p it st) = invocations st + 1"
  "res_iterationCount (lastExecResults (exec_finish_p it st)) = it"
  by (simp_all add: exec_finish_p_def Let_def doIndexes_p_def)

subsection \<open>A run that uses up its single permitted trip\<close>

lemma parabola_one_trip:
  "exec [0] (1 / 10 ^ 6) 1 (setMaxIterations 1 (fresh 1 parabola None))
   = Some (Inr (exec_finish_p 2
        (snd (iteration_p (exec_init_p [0] 1 (setMaxIterations 1 (fresh 1 parabola None)))))))"
proof -
  define W where "W = setMaxIterations 1 (fresh 1 parabola None)"
  define S0 where "S0 = exec_init_p [0] 1 W"
  define S1 where "S1 = snd (iteration_p S0)"
  have w: "wf W" "dim W \<le> length [0::real]" "size_nm W \<noteq> 0"
    by (simp_all add: W_def)
  have w0: "wf S0" "size_nm S0 \<noteq> 0" "configMaxIterations S0 = 1"
    using w by (simp_all add: S0_def wf_exec_init_p W_def)
  have w1: "wf S1" "size_nm S1 \<noteq> 0" "configMaxIterations S1 = 1"
    using w0 by (simp_all add: S1_def wf_iteration_p)
  have init: "exec_init [0] 1 W = Inr S0"
    using exec_init_eq [OF w(1,2)] by (simp add: S0_def)
  have table: "f S1 = [4, 16]" "dim S1 = 1"
    by (simp_all add: S1_def S0_def W_def setMaxIterations_def eval_defs parabola_def)
  have "spread_p S1 = sqrt 72"
    by (simp add: spread_p_def table)
  moreover have "(1::real) \<le> sqrt 72"
    by (rule real_sqrt_ge_one) simp
  moreover have "(1::real) / 10 ^ 6 < 1"
    by simp
  ultimately have far: "\<not> spread_p S1 < 1 / 10 ^ 6"
    by linarith
  have two: "\<not> (2::u32) \<le> 1"
    by (simp add: word_le_nat_alt)
  have "exec_loop (1 / 10 ^ 6) 0 S0 = exec_loop (1 / 10 ^ 6) 1 S1"
    using far by (simp add: exec_loop_unfold [OF w0(1,2)] w0(3) S1_def [symmetric])
  also have "\<dots> = Some (Inr (2, S1))"
    using two by (simp add: exec_loop_unfold [OF w1(1,2)] w1(3))
  finally have loop: "exec_loop (1 / 10 ^ 6) 0 S0 = Some (Inr (2, S1))" .
  have "exec [0] (1 / 10 ^ 6) 1 W = Some (Inr (exec_finish_p 2 S1))"
    using loop by (simp add: exec_def init exec_finish_eq [OF w1(1)])
  then show ?thesis
    by (simp add: W_def S0_def S1_def)
qed

subsection \<open>The reported count\<close>

lemma left_by_last:
  assumes lb: "left_by tol I r"
    and step: "\<And>k s. I k s \<Longrightarrow> k + 1 \<le> configMaxIterations s \<Longrightarrow>
                 I (k + 1) (snd (iteration_p s))"
  shows "\<exists>it s2 k. r = Inr (it, s2) \<and> I k s2"
  using lb step unfolding left_by_def by blast

lemma exec_reports:
  assumes wf: "wf st" and nz: "size_nm st \<noteq> 0" and len: "dim st \<le> length start"
    and res: "exec start tol scale st = Some (Inr st')"
  shows "\<exists>it st2. exec_loop tol 0 (exec_init_p start scale st) = Some (Inr (it, st2))
           \<and> st' = exec_finish_p it st2
           \<and> invocations st \<le> invocations st2
           \<and> evalCount st2 = of_nat (invocations st2 - invocations st)"
proof -
  define I where "I = (\<lambda>(k::u32) s. wf s \<and> size_nm s \<noteq> 0 \<and> invocations st \<le> invocations s
                         \<and> evalCount s = of_nat (invocations s - invocations st))"
  have step: "I (k + 1) (snd (iteration_p s))" if "I k s" for k s
  proof -
    have "adds (evals_of (dim s) (fst (iteration_p s))) s (snd (iteration_p s))"
      by (rule adds_iteration_p)
    with that show ?thesis
      by (simp add: I_def adds_def wf_iteration_p)
  qed
  have "\<exists>it s2. exec_loop tol 0 (exec_init_p start scale st) = Some (Inr (it, s2))
           \<and> left_by tol I (Inr (it, s2)) \<and> wf s2
           \<and> (Inr st' :: failure + NelderMead) = Inr (exec_finish_p it s2)"
  proof (rule exec_result [where I = I, OF wf len res])
    show "I 0 (exec_init_p start scale st)"
      using wf nz by (simp add: I_def wf_exec_init_p exec_init_p_counts)
  qed (simp_all add: I_def step [unfolded I_def])
  then obtain it s2 where loop: "exec_loop tol 0 (exec_init_p start scale st) = Some (Inr (it, s2))"
    and lb: "left_by tol I (Inr (it, s2))" and st': "st' = exec_finish_p it s2"
    by auto
  have "\<exists>it' s2' k. (Inr (it, s2) :: failure + u32 \<times> NelderMead) = Inr (it', s2') \<and> I k s2'"
    by (rule left_by_last [OF lb]) (rule step)
  then have "invocations st \<le> invocations s2"
    "evalCount s2 = of_nat (invocations s2 - invocations st)"
    by (auto simp: I_def)
  with loop st' show ?thesis by blast
qed

lemma trips_add:
  assumes wf: "wf st" and nz: "size_nm st \<noteq> 0"
    and head: "loop_head tol (exec_init_p start scale st) k sh"
    and trip: "iteration sh = Inr (p, s)"
  shows "adds (evals_of (dim st) p) sh s"
proof -
  define I where "I = (\<lambda>s. wf s \<and> size_nm s \<noteq> 0 \<and> dim s = dim st)"
  have "I sh"
    by (rule loop_head_invariant [where I = I, OF head])
      (use wf nz in \<open>simp_all add: I_def wf_exec_init_p wf_iteration_p\<close>)
  then have "iteration sh = Inr (iteration_p sh)" "dim sh = dim st"
    by (simp_all add: I_def iteration_eq)
  with trip show ?thesis
    using adds_iteration_p [of sh] by simp
qed

subsection \<open>Runs with a constant objective\<close>

lemma f_keep [simp]:
  "f (centroid_p st) = f st"
  "f (reflection_p st) = f st"
  by (simp_all add: centroid_p_def reflection_p_def)

lemma flat_trip:
  assumes wf: "wf s" and flat: "\<forall>i \<le> dim s. f s ! i = c" and ef: "evalFunc s = (\<lambda>x. c)"
  shows "fst (iteration_p s)
         = \<lparr>reflected = False, expanded = False, contracted = True, shrunk = True\<rparr>"
    and "\<forall>i \<le> dim s. f (snd (iteration_p s)) ! i = c"
proof -
  define st3 where "st3 = reflection_p (centroid_p (doIndexes_p s))"
  define st4 where "st4 = snd (doEvaluate st3 (vr st3))"
  define st2 where "st2 = (\<lambda>X. snd (doEvaluate (st4\<lparr>vc := X\<rparr>) X))"
  have fr: "evalFunc st3 (vr st3) = c"
    by (simp add: st3_def ef)
  have w4: "wf st4"
    using wf by (simp add: st4_def st3_def wf_doEvaluate wf_reflection_p wf_centroid_p
        wf_doIndexes_p)
  have f4: "f st4 = f s" and d4: "dim st4 = dim s" and e4: "evalFunc st4 = (\<lambda>x. c)"
    by (simp_all add: st4_def st3_def ef)
  have idx: "vs st4 \<le> dim s" "vh st4 \<le> dim s" "vg st4 \<le> dim s"
    using w4 d4 by (simp_all add: wf_def)
  have val: "f st4 ! vs st4 = c" "f st4 ! vh st4 = c" "f st4 ! vg st4 = c"
    using idx flat by (simp_all add: f4)
  have a: "accept_reflection_p c st4 = (False, st4)"
    by (simp add: accept_reflection_p_def val)
  have b: "expansion_p c st4 = (False, st4)"
    by (simp add: expansion_p_def val)
  have "\<exists>X. contraction_p c st4 = ((True, True), shrink_p (st2 X))"
    by (simp add: contraction_p_def Let_def val e4 st2_def) blast
  then obtain X where cc: "contraction_p c st4 = ((True, True), shrink_p (st2 X))"
    by blast
  have it: "iteration_p s = (\<lparr>reflected = False, expanded = False, contracted = True,
                               shrunk = True\<rparr>, shrink_p (st2 X))"
    by (simp add: iteration_p_def Let_def st3_def [symmetric] fr st4_def [symmetric] a b cc)
  show "fst (iteration_p s)
         = \<lparr>reflected = False, expanded = False, contracted = True, shrunk = True\<rparr>"
    by (simp add: it)
  have "wf (snd (iteration_p s))" "synced (shrink_p (st2 X))"
    using wf by (simp_all add: wf_iteration_p synced_shrink_p)
  then have "length (v (shrink_p (st2 X))) = Suc (dim s)"
    "f (shrink_p (st2 X)) = map (\<lambda>x. c) (v (shrink_p (st2 X)))"
    using dim_keep(8) [of s] setup_iteration_p(1) [of s] ef
    by (simp_all add: it wf_def synced_def)
  then show "\<forall>i \<le> dim s. f (snd (iteration_p s)) ! i = c"
    by (simp add: it)
qed

lemma flat_const: "flat = (\<lambda>x. 0)"
  by (rule ext) (simp add: flat_def)

lemma flat_run:
  fixes m :: u32
  assumes m: "m \<noteq> - 1"
  shows "run_report (exec [0] 0 1 (setMaxIterations m (fresh 1 flat None)))
         = Some (Inr (m + 1, of_nat (3 + 6 * unat m), 3 + 6 * unat m))"
proof -
  define W where "W = setMaxIterations m (fresh 1 flat None)"
  define S0 where "S0 = exec_init_p [0] 1 W"
  define I where "I = (\<lambda>(k::u32) s. wf s \<and> size_nm s = 1 \<and> configMaxIterations s = m
                         \<and> evalFunc s = flat \<and> (\<forall>i \<le> dim s. f s ! i = 0) \<and> k \<le> m
                         \<and> invocations s = 2 + 6 * unat k
                         \<and> evalCount s = of_nat (2 + 6 * unat k))"
  have w: "wf W" "dim W \<le> length [0::real]" "size_nm W \<noteq> 0"
    by (simp_all add: W_def)
  have f0: "f S0 = [0, 0]"
    by (simp add: S0_def W_def setMaxIterations_def eval_defs flat_def)
  have I0: "I 0 S0"
    using w f0 by (simp add: I_def S0_def wf_exec_init_p exec_init_p_counts W_def le_Suc_eq)
  have wfI: "wf s \<and> size_nm s \<noteq> 0 \<and> configMaxIterations s = m" if "I k s" for k s
    using that by (simp add: I_def)
  have step: "I (k + 1) (snd (iteration_p s))"
    if "I k s" and g: "k + 1 \<le> configMaxIterations s" for k s
  proof -
    have s: "wf s" "size_nm s = 1" "configMaxIterations s = m" "evalFunc s = flat"
      "\<forall>i \<le> dim s. f s ! i = 0" "k \<le> m" "invocations s = 2 + 6 * unat k"
      "evalCount s = of_nat (2 + 6 * unat k)"
      using that(1) by (simp_all add: I_def)
    have d: "dim s = 1"
      using s(2) by (simp add: dim_def)
    have "k < m"
      using word_step_le [OF s(6) m] g s(3) by simp
    then have u: "unat (k + 1) = Suc (unat k)"
      by (rule word_step_unat)
    have p: "fst (iteration_p s)
         = \<lparr>reflected = False, expanded = False, contracted = True, shrunk = True\<rparr>"
      and fl: "\<forall>i \<le> dim s. f (snd (iteration_p s)) ! i = 0"
      using flat_trip [OF s(1,5)] s(4) flat_const by simp_all
    have "adds 6 s (snd (iteration_p s))"
      using adds_iteration_p [of s] by (simp add: p d evals_of_def)
    then show ?thesis
      using s g fl u by (simp add: I_def adds_def wf_iteration_p)
  qed
  have "\<exists>r. exec_loop 0 0 S0 = Some r"
    by (rule exec_loop_total [where I = I and m = m, OF I0 wfI step m]) simp_all
  then obtain r where loop: "exec_loop 0 0 S0 = Some r"
    by blast
  have "left_by 0 I r"
    by (rule exec_loop_invariant [where I = I, OF loop I0]) (use wfI step in blast)+
  then obtain k s where Is: "I k s"
    and c: "(\<not> k + 1 \<le> configMaxIterations s \<and> r = Inr (k + 1, s))
            \<or> spread_p (snd (iteration_p s)) < 0"
    unfolding left_by_def by blast
  have nc: "\<not> spread_p (snd (iteration_p s)) < 0"
    using spread_p_nonneg [of "snd (iteration_p s)"] by simp
  with c have ex: "\<not> k + 1 \<le> configMaxIterations s" and r: "r = Inr (k + 1, s)"
    by blast+
  have s: "wf s" "configMaxIterations s = m" "k \<le> m" "invocations s = 2 + 6 * unat k"
    "evalCount s = of_nat (2 + 6 * unat k)"
    using Is by (simp_all add: I_def)
  have "k = m"
    using word_step_le [OF s(3) m] ex s(2,3) by simp
  then have cnt: "invocations s = 2 + 6 * unat m" "evalCount s = of_nat (2 + 6 * unat m)"
    using s by simp_all
  have "exec [0] 0 1 W = Some (Inr (exec_finish_p (k + 1) s))"
    using loop r by (simp add: exec_unfold [OF w(1,2)] S0_def [symmetric] exec_finish_eq [OF s(1)])
  moreover have "res_evalCount (lastExecResults (exec_finish_p (k + 1) s)) = of_nat (3 + 6 * unat m)"
    "invocations (exec_finish_p (k + 1) s) = 3 + 6 * unat m"
    "res_iterationCount (lastExecResults (exec_finish_p (k + 1) s)) = m + 1"
    using \<open>k = m\<close> by (simp_all add: exec_finish_p_counts cnt)
  ultimately show ?thesis
    by (simp add: run_report_def getLastExecResults_def W_def)
qed
section \<open>The embedding over the range of binary64: a box is kept unless the shrink step overflows\<close>

subsection \<open>What a successful access tells\<close>

lemma andThen_Inr_iff: "andThen m k = Inr y \<longleftrightarrow> (\<exists>x. m = Inr x \<and> k x = Inr y)"
  by (cases m) (simp_all add: andThen_def)

lemma rd_Inr_iff: "rd xs i = Inr x \<longleftrightarrow> i < length xs \<and> x = xs ! i"
  by (auto simp: rd_def)

lemma wr_Inr_iff: "wr xs i x = Inr ys \<longleftrightarrow> i < length xs \<and> ys = xs[i := x]"
  by (auto simp: wr_def)

lemma rd2_Inr_iff: "rd2 w i j = Inr x \<longleftrightarrow> i < length w \<and> j < length (w ! i) \<and> x = w ! i ! j"
  by (auto simp: rd2_def andThen_Inr_iff rd_Inr_iff)

lemma wr2_Inr_iff:
  "wr2 w i j x = Inr w' \<longleftrightarrow> i < length w \<and> j < length (w ! i) \<and> w' = w[i := (w ! i)[j := x]]"
  by (auto simp: wr2_def andThen_Inr_iff rd_Inr_iff wr_Inr_iff)

lemma upd_Inr_iff: "upd xs i g = Inr ys \<longleftrightarrow> i < length xs \<and> ys = xs[i := g (xs ! i)]"
  by (auto simp: upd_def andThen_Inr_iff rd_Inr_iff)

lemmas access_iffs = andThen_Inr_iff rd_Inr_iff wr_Inr_iff rd2_Inr_iff wr2_Inr_iff upd_Inr_iff

subsection \<open>Invariants of counted loops\<close>

lemma for_each_inv:
  assumes "for_each js body s = Inr s'" and "P s"
    and "\<And>j s s'. P s \<Longrightarrow> body j s = Inr s' \<Longrightarrow> P s'"
  shows "P s'"
  using assms(1,2)
proof (induction js arbitrary: s)
  case Nil
  then show ?case by simp
next
  case (Cons j js)
  then show ?case
    by (cases "body j s") (auto intro: assms(3))
qed

lemma for_lt_inv:
  assumes "for_lt n body s = Inr s'" and "P s"
    and "\<And>j s s'. P s \<Longrightarrow> body j s = Inr s' \<Longrightarrow> P s'"
  shows "P s'"
  using assms(1) unfolding for_lt_def by (rule for_each_inv [where P = P]) (fact assms(2,3))+

lemma for_le_inv:
  assumes "for_le lo n body s = Inr s'" and "P s"
    and "\<And>j s s'. P s \<Longrightarrow> body j s = Inr s' \<Longrightarrow> P s'"
  shows "P s'"
proof (cases "n = - 1")
  case True
  with assms(1) show ?thesis
    by (simp add: for_le_def split: sum.splits)
next
  case False
  with assms(1) have "for_each [lo..<Suc (unat n)] body s = Inr s'"
    by (simp add: for_le_def)
  then show ?thesis
    by (rule for_each_inv [where P = P]) (fact assms(2,3))+
qed

text \<open>A loop whose invariant speaks about the indices already visited.\<close>

lemma for_each_visit:
  assumes "for_each js body s = Inr s'" and "P D s"
    and "\<And>j D s s'. P D s \<Longrightarrow> body j s = Inr s' \<Longrightarrow> P (insert j D) s'"
  shows "P (D \<union> set js) s'"
  using assms(1,2)
proof (induction js arbitrary: s D)
  case Nil
  then show ?case by simp
next
  case (Cons j js)
  then obtain s1 where 1: "body j s = Inr s1" and 2: "for_each js body s1 = Inr s'"
    by (cases "body j s") auto
  have "P (insert j D \<union> set js) s'"
    by (rule Cons.IH [OF 2]) (rule assms(3) [OF Cons.prems(2) 1])
  then show ?case by simp
qed

lemma for_le_visit:
  assumes "for_le 0 n body s = Inr s'" and "P {} s"
    and "\<And>j D s s'. P D s \<Longrightarrow> body j s = Inr s' \<Longrightarrow> P (insert j D) s'"
  shows "P {..unat n} s'"
proof (cases "n = - 1")
  case True
  with assms(1) show ?thesis
    by (simp add: for_le_def split: sum.splits)
next
  case False
  with assms(1) have "for_each [0..<Suc (unat n)] body s = Inr s'"
    by (simp add: for_le_def)
  then have "P ({} \<union> set [0..<Suc (unat n)]) s'"
    by (rule for_each_visit [where P = P]) (fact assms(2,3))+
  moreover have "set [0..<Suc (unat n)] = {..unat n}"
    by auto
  ultimately show ?thesis by simp
qed

subsection \<open>Numbers in an interval\<close>

lemma between_iff:
  "Num lo \<le> a \<and> a \<le> Num hi \<longleftrightarrow> (\<exists>x. a = Num x \<and> lo \<le> x \<and> x \<le> hi)"
  by (cases a) (auto simp: less_eq_double_def)

lemma deliver_in:
  "- overflow_threshold < r \<Longrightarrow> r < overflow_threshold \<Longrightarrow> deliver r = Num r"
  by (simp add: deliver_def)

lemma shrink_step_between:
  assumes lo: "- overflow_threshold < lo" and hi: "hi < overflow_threshold"
    and width: "hi - lo < overflow_threshold"
    and a: "Num lo \<le> a \<and> a \<le> Num hi" and b: "Num lo \<le> b \<and> b \<le> Num hi"
  shows "Num lo \<le> a + (b - a) / Num 2 \<and> a + (b - a) / Num 2 \<le> Num hi"
proof -
  from a obtain x where x: "a = Num x" "lo \<le> x" "x \<le> hi"
    unfolding between_iff by blast
  from b obtain y where y: "b = Num y" "lo \<le> y" "y \<le> hi"
    unfolding between_iff by blast
  have 1: "b - a = Num (y - x)"
    using x y lo hi width by (simp add: minus_double_def deliver_in)
  have 2: "(b - a) / Num 2 = Num ((y - x) / 2)"
    unfolding 1 using x y lo hi width by (simp add: divide_double_def deliver_in)
  have mid: "lo \<le> x + (y - x) / 2" "x + (y - x) / 2 \<le> hi"
    using x y by (simp_all add: field_simps)
  then have "- overflow_threshold < x + (y - x) / 2" "x + (y - x) / 2 < overflow_threshold"
    using lo hi by linarith+
  then have 3: "a + (b - a) / Num 2 = Num (x + (y - x) / 2)"
    unfolding 2 by (simp add: x plus_double_def deliver_in)
  show ?thesis
    unfolding 3 between_iff using mid by blast
qed

subsection \<open>Rows in the box\<close>

lemma in_update: "a \<in> set (x[j := y]) \<Longrightarrow> a = y \<or> a \<in> set x"
  using set_update_subset_insert [of x j y] by auto

lemma boxed_update:
  assumes "boxed_d lo hi x" and "Num lo \<le> y \<and> y \<le> Num hi"
  shows "boxed_d lo hi (x[j := y])"
  unfolding boxed_d_def
proof
  fix a assume "a \<in> set (x[j := y])"
  then have "a = y \<or> a \<in> set x"
    by (rule in_update)
  then show "Num lo \<le> a \<and> a \<le> Num hi"
  proof
    assume "a = y" with assms(2) show ?thesis by simp
  next
    assume "a \<in> set x" with assms(1) show ?thesis unfolding boxed_d_def by (rule bspec)
  qed
qed

lemma rows_update:
  assumes "\<forall>x \<in> set w. boxed_d lo hi x" and "boxed_d lo hi r"
  shows "\<forall>x \<in> set (w[i := r]). boxed_d lo hi x"
proof
  fix x assume "x \<in> set (w[i := r])"
  then have "x = r \<or> x \<in> set w"
    by (rule in_update)
  then show "boxed_d lo hi x"
    using assms by (elim disjE) (simp, rule bspec)
qed

lemma rows_wr2:
  assumes "wr2 w i j y = Inr w'" and "\<forall>x \<in> set w. boxed_d lo hi x"
    and "Num lo \<le> y \<and> y \<le> Num hi"
  shows "length w' = length w \<and> (\<forall>x \<in> set w'. boxed_d lo hi x)"
proof -
  from assms(1) have i: "i < length w" and w': "w' = w[i := (w ! i)[j := y]]"
    by (simp_all add: wr2_Inr_iff)
  have "w ! i \<in> set w"
    using i by (rule nth_mem)
  with assms(2) have "boxed_d lo hi (w ! i)"
    by (rule bspec)
  then have "boxed_d lo hi ((w ! i)[j := y])"
    using assms(3) by (rule boxed_update)
  with assms(2) have "\<forall>x \<in> set w'. boxed_d lo hi x"
    unfolding w' by (rule rows_update)
  then show ?thesis
    unfolding w' by simp
qed

lemma boxed_nth:
  assumes "boxed_d lo hi x" and "j < length x"
  shows "Num lo \<le> x ! j \<and> x ! j \<le> Num hi"
proof -
  have "x ! j \<in> set x"
    using assms(2) by (rule nth_mem)
  with assms(1) show ?thesis
    unfolding boxed_d_def by (rule bspec)
qed

subsection \<open>What the blocks leave alone\<close>

lemma doEvaluate_d_frame [simp]:
  "v_d (snd (doEvaluate_d st x)) = v_d st"
  "constrainFunc_d (snd (doEvaluate_d st x)) = constrainFunc_d st"
  "vr_d (snd (doEvaluate_d st x)) = vr_d st"
  "ve_d (snd (doEvaluate_d st x)) = ve_d st"
  "vc_d (snd (doEvaluate_d st x)) = vc_d st"
  by (simp_all add: doEvaluate_d_def)

lemma constrain_d_Some: "constrainFunc_d st = Some c \<Longrightarrow> constrain_d st x = c x"
  by (simp add: constrain_d_def)

lemma doIndexes_d_frame:
  assumes "doIndexes_d st = Inr st'"
  shows "v_d st' = v_d st \<and> constrainFunc_d st' = constrainFunc_d st"
  using assms by (auto simp: doIndexes_d_def Let_def andThen_Inr_iff split: prod.splits)

lemma centroid_d_frame:
  assumes "centroid_d st = Inr st'"
  shows "v_d st' = v_d st \<and> constrainFunc_d st' = constrainFunc_d st"
  using assms by (auto simp: centroid_d_def andThen_Inr_iff)

lemma reflection_d_frame:
  assumes "reflection_d st = Inr st'"
  shows "v_d st' = v_d st \<and> constrainFunc_d st' = constrainFunc_d st
         \<and> (\<exists>r. vr_d st' = constrain_d st r)"
  using assms by (auto simp: reflection_d_def andThen_Inr_iff)

lemma evaluate_all_d_frame:
  assumes "evaluate_all_d st = Inr st'"
  shows "v_d st' = v_d st \<and> constrainFunc_d st' = constrainFunc_d st"
  using assms unfolding evaluate_all_d_def
  by (rule for_le_inv [where P = "\<lambda>s. v_d s = v_d st \<and> constrainFunc_d s = constrainFunc_d st"])
     (auto simp: andThen_Inr_iff doEvaluate_d_def split: prod.splits)

lemma for_lt_length:
  assumes "for_lt n body w = Inr w'"
    and "\<And>j w w'. body j w = Inr w' \<Longrightarrow> length w' = length w"
  shows "length w' = length w"
  using assms(1) by (rule for_lt_inv [where P = "\<lambda>u. length u = length w"]) (simp_all add: assms(2))

lemma for_le_length:
  assumes "for_le lo n body w = Inr w'"
    and "\<And>j w w'. body j w = Inr w' \<Longrightarrow> length w' = length w"
  shows "length w' = length w"
  using assms(1) by (rule for_le_inv [where P = "\<lambda>u. length u = length w"]) (simp_all add: assms(2))

lemma doInitialize_d_frame:
  assumes "doInitialize_d start scale st = Inr st'"
  shows "length (v_d st') = length (v_d st) \<and> constrainFunc_d st' = constrainFunc_d st
         \<and> size_nm_d st' = size_nm_d st"
  using assms unfolding doInitialize_d_def Let_def andThen_Inr_iff
proof (elim exE conjE, goal_cases)
  case (1 w0 w1)
  have "length w0 = length (v_d st)"
    by (rule for_lt_length [OF 1(1)]) (auto simp: access_iffs)
  moreover have "length w1 = length w0"
    by (rule for_le_length [OF 1(2)], erule for_lt_length) (auto simp: access_iffs split: if_splits)
  ultimately show ?case
    using 1(3) by auto
qed

subsection \<open>The blocks keep the simplex in the box\<close>

lemma box_inv_frame:
  "box_inv c n lo hi st \<Longrightarrow> v_d st' = v_d st \<and> constrainFunc_d st' = constrainFunc_d st \<Longrightarrow>
   box_inv c n lo hi st'"
  by (simp add: box_inv_def in_box_d_def)

lemma box_inv_update [simp]:
  "box_inv c n lo hi (st\<lparr>f_d := g\<rparr>) = box_inv c n lo hi st"
  "box_inv c n lo hi (st\<lparr>vr_d := r\<rparr>) = box_inv c n lo hi st"
  "box_inv c n lo hi (st\<lparr>ve_d := e\<rparr>) = box_inv c n lo hi st"
  "box_inv c n lo hi (st\<lparr>vc_d := k\<rparr>) = box_inv c n lo hi st"
  "box_inv c n lo hi (st\<lparr>vm_d := m\<rparr>) = box_inv c n lo hi st"
  "box_inv c n lo hi (st\<lparr>evalCount_d := u\<rparr>) = box_inv c n lo hi st"
  "box_inv c n lo hi (st\<lparr>vs_d := i\<rparr>) = box_inv c n lo hi st"
  "box_inv c n lo hi (st\<lparr>vh_d := i\<rparr>) = box_inv c n lo hi st"
  "box_inv c n lo hi (st\<lparr>vg_d := i\<rparr>) = box_inv c n lo hi st"
  by (simp_all add: box_inv_def in_box_d_def)

lemma constrain_all_d_box:
  assumes run: "constrain_all_d st = Inr st'" and c: "constrainFunc_d st = Some c"
    and len: "length (v_d st) = Suc (unat (size_nm_d st))"
    and box: "\<forall>x. boxed_d lo hi (c x)"
  shows "box_inv c (Suc (unat (size_nm_d st))) lo hi st'"
proof -
  let ?L = "Suc (unat (size_nm_d st))"
  from run c obtain w where
    loop: "for_le 0 (size_nm_d st) (\<lambda>j w. upd w j c) (v_d st) = Inr w"
    and st': "st' = st\<lparr>v_d := w\<rparr>"
    by (auto simp: constrain_all_d_def andThen_Inr_iff)
  define P where "P = (\<lambda>D (w :: vec_d list). length w = ?L \<and> (\<forall>j \<in> D. j < ?L \<longrightarrow> boxed_d lo hi (w ! j)))"
  have "P {..unat (size_nm_d st)} w"
  proof (rule for_le_visit [where P = P, OF loop])
    show "P {} (v_d st)"
      by (simp add: P_def len)
    show "P (insert j D) u'" if "P D u" and "upd u j c = Inr u'" for j D u u'
      using that box by (auto simp: P_def upd_Inr_iff nth_list_update)
  qed
  then have "length w = ?L" and "\<forall>j < ?L. boxed_d lo hi (w ! j)"
    by (auto simp: P_def)
  then have "\<forall>x \<in> set w. boxed_d lo hi x"
    by (auto simp: in_set_conv_nth)
  with \<open>length w = ?L\<close> show ?thesis
    by (simp add: box_inv_def in_box_d_def st' c)
qed

lemma exec_init_d_box:
  assumes run: "exec_init_d start scale st = Inr st'" and c: "constrainFunc_d st = Some c"
    and len: "length (v_d st) = Suc (unat (size_nm_d st))"
    and box: "\<forall>x. boxed_d lo hi (c x)"
  shows "box_inv c (Suc (unat (size_nm_d st))) lo hi st'"
proof -
  from run obtain st1 st2 where 1: "doInitialize_d start scale st = Inr st1"
    and 2: "constrain_all_d st1 = Inr st2" and 3: "evaluate_all_d st2 = Inr st'"
    by (auto simp: exec_init_d_def andThen_Inr_iff)
  from doInitialize_d_frame [OF 1] c len
  have "constrainFunc_d st1 = Some c" "length (v_d st1) = Suc (unat (size_nm_d st1))"
    "size_nm_d st1 = size_nm_d st"
    by simp_all
  with constrain_all_d_box [OF 2 _ _ box]
  have "box_inv c (Suc (unat (size_nm_d st))) lo hi st2"
    by simp
  then show ?thesis
    by (rule box_inv_frame) (rule evaluate_all_d_frame [OF 3])
qed

lemma accept_d_box:
  assumes run: "accept_d x fx st = Inr st'" and inv: "box_inv c n lo hi st"
    and x: "boxed_d lo hi x"
  shows "box_inv c n lo hi st' \<and> vr_d st' = vr_d st"
proof -
  from run obtain w g where
    loop: "for_le 0 (size_nm_d st - 1)
             (\<lambda>j w. andThen (rd x j) (\<lambda>y. wr2 w (vg_d st) j y)) (v_d st) = Inr w"
    and st': "st' = st\<lparr>v_d := w, f_d := g\<rparr>"
    by (auto simp: accept_d_def andThen_Inr_iff)
  have "length w = n \<and> (\<forall>r \<in> set w. boxed_d lo hi r)"
  proof (rule for_le_inv [OF loop])
    show "length (v_d st) = n \<and> (\<forall>r \<in> set (v_d st). boxed_d lo hi r)"
      using inv by (simp add: box_inv_def in_box_d_def)
    show "length u' = n \<and> (\<forall>r \<in> set u'. boxed_d lo hi r)"
      if "length u = n \<and> (\<forall>r \<in> set u. boxed_d lo hi r)"
        and "andThen (rd x j) (\<lambda>y. wr2 u (vg_d st) j y) = Inr u'" for j u u'
    proof -
      from that(2) have j: "j < length x" and w: "wr2 u (vg_d st) j (x ! j) = Inr u'"
        by (auto simp: andThen_Inr_iff rd_Inr_iff)
      from rows_wr2 [OF w _ boxed_nth [OF x j]] that(1) show ?thesis
        by simp
    qed
  qed
  with inv show ?thesis
    by (simp add: box_inv_def in_box_d_def st')
qed

lemma accept_reflection_d_box:
  assumes run: "accept_reflection_d fr st = Inr (b, st')" and inv: "box_inv c n lo hi st"
    and r: "boxed_d lo hi (vr_d st)"
  shows "box_inv c n lo hi st' \<and> vr_d st' = vr_d st"
  using run inv accept_d_box [OF _ inv r]
  by (auto simp: accept_reflection_d_def andThen_Inr_iff split: if_splits)

lemma expansion_d_box:
  assumes run: "expansion_d fr st = Inr (b, st')" and inv: "box_inv c n lo hi st"
    and r: "boxed_d lo hi (vr_d st)" and box: "\<forall>x. boxed_d lo hi (c x)"
  shows "box_inv c n lo hi st'"
proof (cases b)
  case False
  with run inv show ?thesis
    by (auto simp: expansion_d_def andThen_Inr_iff Let_def split: if_splits prod.splits)
next
  case True
  have c: "constrainFunc_d st = Some c"
    using inv by (simp add: box_inv_def)
  from run True inv r box obtain s2 x fx where "accept_d x fx s2 = Inr st'"
    and "box_inv c n lo hi s2" and "boxed_d lo hi x"
    by (auto simp: expansion_d_def andThen_Inr_iff Let_def doEvaluate_d_def
        constrain_d_Some [OF c] split: if_splits)
  then show ?thesis
    using accept_d_box by blast
qed

lemma reevaluate_d_box:
  assumes run: "reevaluate_d i st = Inr st'" and inv: "box_inv c n lo hi st"
    and box: "\<forall>x. boxed_d lo hi (c x)"
  shows "box_inv c n lo hi st'"
proof -
  have c: "constrainFunc_d st = Some c"
    using inv by (simp add: box_inv_def)
  from run c obtain s2 g where i: "i < length (v_d st)"
    and st': "st' = s2\<lparr>f_d := g\<rparr>"
    and s2: "v_d s2 = (v_d st)[i := c (v_d st ! i)]" "constrainFunc_d s2 = Some c"
    by (auto simp: reevaluate_d_def constrain_row_d_def andThen_Inr_iff upd_Inr_iff rd_Inr_iff
        doEvaluate_d_def)
  have "\<forall>x \<in> set ((v_d st)[i := c (v_d st ! i)]). boxed_d lo hi x"
    using inv box by (intro rows_update) (simp_all add: box_inv_def in_box_d_def)
  with inv show ?thesis
    by (simp add: box_inv_def in_box_d_def st' s2)
qed

lemma shrink_d_box:
  assumes run: "shrink_d st = Inr st'" and inv: "box_inv c n lo hi st"
    and lo: "- overflow_threshold < lo" and hi: "hi < overflow_threshold"
    and width: "hi - lo < overflow_threshold"
    and box: "\<forall>x. boxed_d lo hi (c x)"
  shows "box_inv c n lo hi st'"
  using run unfolding shrink_d_def andThen_Inr_iff
proof (elim exE conjE, goal_cases)
  case (1 w st1 st2 st4)
  define Q where "Q = (\<lambda>u :: vec_d list. length u = n \<and> (\<forall>r \<in> set u. boxed_d lo hi r))"
  have step: "Q u'" if "Q u"
    and "andThen
           (andThen (rd2 u (vs_d st) j) (\<lambda>a. andThen (rd2 u row j) (\<lambda>b.
              andThen (rd2 u (vs_d st) j) (\<lambda>a'. Inr (a + (b - a') / Num 2)))))
           (\<lambda>y. wr2 u row j y) = Inr u'" for u u' row j
  proof -
    from that(2) have s: "vs_d st < length u" "j < length (u ! vs_d st)"
      and r: "row < length u" "j < length (u ! row)"
      and w: "wr2 u row j (u ! vs_d st ! j + (u ! row ! j - u ! vs_d st ! j) / Num 2) = Inr u'"
      by (auto simp: access_iffs)
    have "boxed_d lo hi (u ! vs_d st)" "boxed_d lo hi (u ! row)"
      using that(1) s(1) r(1) by (simp_all add: Q_def)
    then have "Num lo \<le> u ! vs_d st ! j \<and> u ! vs_d st ! j \<le> Num hi"
      "Num lo \<le> u ! row ! j \<and> u ! row ! j \<le> Num hi"
      using s(2) r(2) by (simp_all add: boxed_nth)
    then have "Num lo \<le> u ! vs_d st ! j + (u ! row ! j - u ! vs_d st ! j) / Num 2
          \<and> u ! vs_d st ! j + (u ! row ! j - u ! vs_d st ! j) / Num 2 \<le> Num hi"
      by (rule shrink_step_between [OF lo hi width])
    from rows_wr2 [OF w _ this] that(1) show ?thesis
      by (simp add: Q_def)
  qed
  have "Q w"
  proof (rule for_le_inv [where P = Q, OF 1(1)])
    show "Q (v_d st)"
      using inv by (simp add: Q_def box_inv_def in_box_d_def)
    show "Q u'" if "Q u"
      and "(if row \<noteq> vs_d st
            then for_le 0 (size_nm_d st - 1) (\<lambda>j w.
                   andThen
                     (andThen (rd2 w (vs_d st) j) (\<lambda>a. andThen (rd2 w row j) (\<lambda>b.
                        andThen (rd2 w (vs_d st) j) (\<lambda>a'. Inr (a + (b - a') / Num 2)))))
                     (\<lambda>y. wr2 w row j y)) u
            else Inr u) = Inr u'" for row u u'
    proof (cases "row \<noteq> vs_d st")
      case True
      with that(2) have "for_le 0 (size_nm_d st - 1) (\<lambda>j w.
                   andThen
                     (andThen (rd2 w (vs_d st) j) (\<lambda>a. andThen (rd2 w row j) (\<lambda>b.
                        andThen (rd2 w (vs_d st) j) (\<lambda>a'. Inr (a + (b - a') / Num 2)))))
                     (\<lambda>y. wr2 w row j y)) u = Inr u'"
        by simp
      then show ?thesis
        by (rule for_le_inv [where P = Q]) (fact that(1), erule (1) step)
    next
      case False
      with that show ?thesis by simp
    qed
  qed
  then have "box_inv c n lo hi (st\<lparr>v_d := w\<rparr>)"
    using inv by (simp add: Q_def box_inv_def in_box_d_def)
  then have "box_inv c n lo hi st1"
    by (rule box_inv_frame) (rule evaluate_all_d_frame [OF 1(2)])
  then have "box_inv c n lo hi st2"
    by (rule box_inv_frame) (rule doIndexes_d_frame [OF 1(3)])
  then have "box_inv c n lo hi st4"
    by (rule reevaluate_d_box [OF 1(4) _ box])
  then show ?case
    by (rule reevaluate_d_box [OF 1(5) _ box])
qed

lemma contraction_d_box:
  assumes run: "contraction_d fr st = Inr (bb, st')" and inv: "box_inv c n lo hi st"
    and lo: "- overflow_threshold < lo" and hi: "hi < overflow_threshold"
    and width: "hi - lo < overflow_threshold"
    and box: "\<forall>x. boxed_d lo hi (c x)"
  shows "box_inv c n lo hi st'"
proof -
  have c: "constrainFunc_d st = Some c"
    using inv by (simp add: box_inv_def)
  from run inv box consider "st' = st"
    | s2 x fx where "accept_d x fx s2 = Inr st'" "box_inv c n lo hi s2" "boxed_d lo hi x"
    | s2 where "shrink_d s2 = Inr st'" "box_inv c n lo hi s2"
    by (auto simp: contraction_d_def andThen_Inr_iff Let_def doEvaluate_d_def
        constrain_d_Some [OF c] split: if_splits)
  then show ?thesis
  proof cases
    case 1
    with inv show ?thesis by simp
  next
    case 2
    then show ?thesis
      using accept_d_box by blast
  next
    case 3
    then show ?thesis
      by (rule shrink_d_box [OF _ _ lo hi width box])
  qed
qed

lemma iteration_d_box:
  assumes run: "iteration_d st = Inr (p, st')" and inv: "box_inv c n lo hi st"
    and lo: "- overflow_threshold < lo" and hi: "hi < overflow_threshold"
    and width: "hi - lo < overflow_threshold"
    and box: "\<forall>x. boxed_d lo hi (c x)"
  shows "box_inv c n lo hi st'"
proof -
  from run obtain st1 st2 st3 b1 st5 b2 st6 bb where 1: "doIndexes_d st = Inr st1"
    and 2: "centroid_d st1 = Inr st2" and 3: "reflection_d st2 = Inr st3"
    and 5: "accept_reflection_d (fst (doEvaluate_d st3 (vr_d st3))) (snd (doEvaluate_d st3 (vr_d st3)))
            = Inr (b1, st5)"
    and 6: "expansion_d (fst (doEvaluate_d st3 (vr_d st3))) st5 = Inr (b2, st6)"
    and 7: "contraction_d (fst (doEvaluate_d st3 (vr_d st3))) st6 = Inr (bb, st')"
    by (auto simp: iteration_d_def andThen_Inr_iff split_def)
  have i1: "box_inv c n lo hi st1"
    by (rule box_inv_frame [OF inv]) (rule doIndexes_d_frame [OF 1])
  then have i2: "box_inv c n lo hi st2"
    by (rule box_inv_frame) (rule centroid_d_frame [OF 2])
  then have c2: "constrainFunc_d st2 = Some c"
    by (simp add: box_inv_def)
  from reflection_d_frame [OF 3] have f3: "v_d st3 = v_d st2 \<and> constrainFunc_d st3 = constrainFunc_d st2"
    and r3: "boxed_d lo hi (vr_d st3)"
    using box by (auto simp: constrain_d_Some [OF c2])
  have i3: "box_inv c n lo hi st3"
    by (rule box_inv_frame [OF i2 f3])
  let ?s4 = "snd (doEvaluate_d st3 (vr_d st3))"
  have i4: "box_inv c n lo hi ?s4" and r4: "boxed_d lo hi (vr_d ?s4)"
    using r3 by (simp_all add: box_inv_frame [OF i3])
  from accept_reflection_d_box [OF 5 i4 r4]
  have i5: "box_inv c n lo hi st5" and r5: "boxed_d lo hi (vr_d st5)"
    using r4 by simp_all
  have i6: "box_inv c n lo hi st6"
    by (rule expansion_d_box [OF 6 i5 r5 box])
  show ?thesis
    by (rule contraction_d_box [OF 7 i6 lo hi width box])
qed

lemma loop_head_d_box:
  assumes head: "loop_head_d tol st1 it sh" and inv: "box_inv c n lo hi st1"
    and lo: "- overflow_threshold < lo" and hi: "hi < overflow_threshold"
    and width: "hi - lo < overflow_threshold"
    and box: "\<forall>x. boxed_d lo hi (c x)"
  shows "box_inv c n lo hi sh"
  using head
proof induction
  case head_first_d
  show ?case by (rule inv)
next
  case (head_next_d it st p st' s)
  show ?case
    by (rule iteration_d_box [OF head_next_d(3) head_next_d.IH lo hi width box])
qed

subsection \<open>Evaluating a run on concrete input\<close>

lemma sqrt2_bounds: "7 / 5 \<le> sqrt 2" "sqrt 2 \<le> 2"
  by (rule real_le_rsqrt, simp add: power2_eq_square) (rule real_le_lsqrt, simp_all)

lemma threshold_large: "4 < overflow_threshold"
  by (simp add: overflow_threshold_def)

lemma deliver_sqrt2 [simp]:
  "deliver (sqrt 2) = Num (sqrt 2)"
  "deliver (sqrt 2 - 1) = Num (sqrt 2 - 1)"
  using sqrt2_bounds threshold_large by (simp_all add: deliver_def)

lemma deliver_pos: "overflow_threshold \<le> r \<Longrightarrow> deliver r = PosInf"
  by (simp add: deliver_def)

lemma deliver_neg: "r \<le> - overflow_threshold \<Longrightarrow> deliver r = NegInf"
  using threshold_large by (simp add: deliver_def)

lemmas deliver_eval = deliver_in deliver_pos deliver_neg overflow_threshold_def

lemmas arith_d = plus_double_def minus_double_def times_double_def divide_double_def
  less_double_def less_eq_double_def of_u32_def

lemmas run_d = exec_init_d_def doInitialize_d_def constrain_all_d_def evaluate_all_d_def
  doEvaluate_d_def doIndexes_d_def constrain_d_def constrain_row_d_def centroid_d_def
  reflection_d_def accept_d_def accept_reflection_d_def expansion_d_def reevaluate_d_def
  shrink_d_def contraction_d_def iteration_d_def for_le_def for_lt_def Let_def
  rd_def wr_def rd2_def wr2_def upd_def

lemma deliver_times_sqrt2:
  assumes "overflow_threshold \<le> r * (7 / 5)" and "0 \<le> r"
  shows "deliver (r * sqrt 2) = PosInf"
proof -
  have "r * (7 / 5) \<le> r * sqrt 2"
    using assms(2) sqrt2_bounds(1) by (rule mult_left_mono [rotated])
  with assms(1) show ?thesis
    by (simp add: deliver_def)
qed

lemma clamp_d_boxed: "lo \<le> hi \<Longrightarrow> boxed_d lo hi (clamp_d lo hi x)"
  unfolding boxed_d_def clamp_d_def
proof (clarsimp)
  fix xi assume "lo \<le> hi"
  then show "Num lo \<le> fmax_d (Num lo) (fmin_d xi (Num hi)) \<and> fmax_d (Num lo) (fmin_d xi (Num hi)) \<le> Num hi"
    by (cases xi) (auto simp: fmin_d_def fmax_d_def less_double_def less_eq_double_def)
qed

lemmas eval_d = first_trip_d_def run_d arith_d line_d_def deliver_eval deliver_times_sqrt2
  clamp_d_def fmin_d_def fmax_d_def flat_d_def


lemma line_d_init:
  "exec_init_d [Num (1199 / 2)] (Num 1) (line_d flat_d (Some (clamp_d (- 600) 600)))
   = Inr ((line_d flat_d (Some (clamp_d (- 600) 600)))
            \<lparr>v_d := [[Num (1199 / 2)], [Num 600]], evalCount_d := 2\<rparr>)"
  by (simp add: eval_d)

lemma line_d_trip:
  "iteration_d ((line_d flat_d (Some (clamp_d (- 600) 600)))
                  \<lparr>v_d := [[Num (1199 / 2)], [Num 600]], evalCount_d := 2\<rparr>)
   = Inr (\<lparr>reflected = False, expanded = False, contracted = True, shrunk = True\<rparr>,
          (line_d flat_d (Some (clamp_d (- 600) 600)))
            \<lparr>v_d := [[Num (1199 / 2)], [Num (2399 / 4)]], vr_d := [Num 600],
             vc_d := [Num (2399 / 4)], vm_d := [Num 600], evalCount_d := 8\<rparr>)"
  by (simp add: eval_d)


section \<open>The claims\<close>

text \<open>
  Claim C9. Each configuration setter (\<open>setMaxIterations\<close>, \<open>setReflectionCoefficient\<close>,
  \<open>setContractionCoefficient\<close>, \<open>setExpansionCoefficient\<close>) stores its argument in its own
  configuration field and changes nothing else: putting the old value of that field back
  gives the state before the call. In particular the result of an earlier \<open>exec\<close>, read
  with \<open>getLastExecResults\<close>, is the same before and after any setter call.
\<close>

theorem setters_change_only_their_field:
  "configMaxIterations (setMaxIterations n st) = n
   \<and> (setMaxIterations n st)\<lparr>configMaxIterations := configMaxIterations st\<rparr> = st
   \<and> getLastExecResults (setMaxIterations n st) = getLastExecResults st
   \<and> configReflectionCoefficient (setReflectionCoefficient x st) = x
   \<and> (setReflectionCoefficient x st)\<lparr>configReflectionCoefficient := configReflectionCoefficient st\<rparr> = st
   \<and> getLastExecResults (setReflectionCoefficient x st) = getLastExecResults st
   \<and> configContractionCoefficient (setContractionCoefficient x st) = x
   \<and> (setContractionCoefficient x st)\<lparr>configContractionCoefficient := configContractionCoefficient st\<rparr> = st
   \<and> getLastExecResults (setContractionCoefficient x st) = getLastExecResults st
   \<and> configExpansionCoefficient (setExpansionCoefficient x st) = x
   \<and> (setExpansionCoefficient x st)\<lparr>configExpansionCoefficient := configExpansionCoefficient st\<rparr> = st
   \<and> getLastExecResults (setExpansionCoefficient x st) = getLastExecResults st"
  by (simp add: setMaxIterations_def setReflectionCoefficient_def setContractionCoefficient_def
      setExpansionCoefficient_def getLastExecResults_def)

text \<open>
  Claim C5. For every run of \<open>exec\<close> on a well-formed instance of dimension at least one
  (the objective is a function, hence pure), at every observation point (after the initial
  evaluation pass and at the end of every trip through the loop) the value table has
  \<open>N + 1\<close> entries and \<open>f[i]\<close> is the objective at the current vertex \<open>v[i]\<close>, for every
  \<open>i\<close> in \<open>0..N\<close>.
\<close>

theorem value_table_in_step:
  assumes "wf st" and "size_nm st \<noteq> 0" and "dim st \<le> length start"
    and "observed start tolerancee scale st s"
  shows "length (v s) = Suc (dim st) \<and> length (f s) = Suc (dim st) \<and>
         (\<forall>i \<le> dim st. f s ! i = evalFunc st (v s ! i))"
proof -
  define I where "I = (\<lambda>s. wf s \<and> size_nm s \<noteq> 0 \<and> synced s \<and> dim s = dim st
                            \<and> evalFunc s = evalFunc st)"
  have "I s"
  proof (rule observed_invariant [OF assms(4,1,3)])
    show "I (exec_init_p start scale st)"
      using assms(1,2) by (simp add: I_def wf_exec_init_p synced_exec_init_p)
    show "wf s \<and> size_nm s \<noteq> 0" if "I s" for s
      using that by (simp add: I_def)
    show "I (snd (iteration_p s))" if "I s" for s
      using that by (simp add: I_def wf_iteration_p synced_iteration_p)
  qed
  then have "wf s" "f s = map (evalFunc st) (v s)" "dim s = dim st"
    by (simp_all add: I_def synced_def)
  then show ?thesis
    by (simp add: wf_def)
qed

theorem value_table_in_step_witness:
  "wf (fresh 1 parabola None) \<and> size_nm (fresh 1 parabola None) \<noteq> 0
   \<and> dim (fresh 1 parabola None) \<le> length [0::real]
   \<and> observed [0] (1 / 10 ^ 10) 1 (fresh 1 parabola None)
        (snd (iteration_p (exec_init_p [0] 1 (fresh 1 parabola None))))
   \<and> length (v (snd (iteration_p (exec_init_p [0] 1 (fresh 1 parabola None)))))
       = Suc (dim (fresh 1 parabola None))
   \<and> length (f (snd (iteration_p (exec_init_p [0] 1 (fresh 1 parabola None)))))
       = Suc (dim (fresh 1 parabola None))
   \<and> f (snd (iteration_p (exec_init_p [0] 1 (fresh 1 parabola None)))) ! 0
       = evalFunc (fresh 1 parabola None)
           (v (snd (iteration_p (exec_init_p [0] 1 (fresh 1 parabola None)))) ! 0)
   \<and> f (snd (iteration_p (exec_init_p [0] 1 (fresh 1 parabola None)))) ! 1
       = evalFunc (fresh 1 parabola None)
           (v (snd (iteration_p (exec_init_p [0] 1 (fresh 1 parabola None)))) ! 1)"
proof -
  have a: "wf (fresh 1 parabola None)" "size_nm (fresh 1 parabola None) \<noteq> 0"
    "dim (fresh 1 parabola None) \<le> length [0::real]"
    "1 \<le> configMaxIterations (fresh 1 parabola None)"
    by simp_all
  have b: "observed [0] (1 / 10 ^ 10) 1 (fresh 1 parabola None)
        (snd (iteration_p (exec_init_p [0] 1 (fresh 1 parabola None))))"
    by (rule observed_first_trip [OF a])
  have d: "(0::nat) \<le> dim (fresh 1 parabola None)" "(1::nat) \<le> dim (fresh 1 parabola None)"
    by simp_all
  show ?thesis
    using value_table_in_step [OF a(1,2,3) b] a b d by blast
qed

text \<open>
  Claim C4, as written, fails: a clamp keeps the simplex in its box only as long as the
  shrink step does not overflow. Stated over the embedding with the range of binary64.
  For every constraint function that puts every coordinate of every argument, whatever it
  holds, into \<open>[lo, hi]\<close>, where \<open>lo\<close> and \<open>hi\<close> are in the range of binary64 and the width
  \<open>hi - lo\<close> is below the overflow threshold, and every run of \<open>exec\<close> with that constraint
  function on an instance with \<open>N + 1\<close> vertices: after the initial constrain-and-evaluate
  pass and after every completed trip through the loop, shrinking trips included, the
  simplex has \<open>N + 1\<close> vertices and every coordinate of every vertex is a number in
  \<open>[lo, hi]\<close>.
\<close>

theorem simplex_stays_in_box_unless_overflow:
  assumes "length (v_d st) = Suc (unat (size_nm_d st))"
    and "- overflow_threshold < lo" and "hi < overflow_threshold"
    and "hi - lo < overflow_threshold"
    and "constrainFunc_d st = Some c" and "\<forall>x. boxed_d lo hi (c x)"
    and "observed_d start tolerancee scale st s"
  shows "length (v_d s) = Suc (unat (size_nm_d st)) \<and> in_box_d lo hi s"
proof -
  from assms(7) obtain st1 where init: "exec_init_d start scale st = Inr st1"
    and s: "s = st1 \<or> (\<exists>it sh p. loop_head_d tolerancee st1 it sh \<and> iteration_d sh = Inr (p, s))"
    unfolding observed_d_def by blast
  have 1: "box_inv c (Suc (unat (size_nm_d st))) lo hi st1"
    by (rule exec_init_d_box [OF init assms(5,1,6)])
  from s have "box_inv c (Suc (unat (size_nm_d st))) lo hi s"
  proof
    assume "s = st1"
    with 1 show ?thesis by simp
  next
    assume "\<exists>it sh p. loop_head_d tolerancee st1 it sh \<and> iteration_d sh = Inr (p, s)"
    then obtain it sh p where h: "loop_head_d tolerancee st1 it sh"
      and t: "iteration_d sh = Inr (p, s)"
      by blast
    have "box_inv c (Suc (unat (size_nm_d st))) lo hi sh"
      by (rule loop_head_d_box [OF h 1 assms(2,3,4,6)])
    then show ?thesis
      by (rule iteration_d_box [OF t _ assms(2,3,4,6)])
  qed
  then show ?thesis
    by (simp add: box_inv_def)
qed

theorem simplex_stays_in_box_unless_overflow_witness:
  "length (v_d (line_d flat_d (Some (clamp_d (- 600) 600))))
     = Suc (unat (size_nm_d (line_d flat_d (Some (clamp_d (- 600) 600)))))
   \<and> - overflow_threshold < - 600 \<and> 600 < overflow_threshold
   \<and> 600 - (- 600) < overflow_threshold
   \<and> constrainFunc_d (line_d flat_d (Some (clamp_d (- 600) 600))) = Some (clamp_d (- 600) 600)
   \<and> (\<forall>x. boxed_d (- 600) 600 (clamp_d (- 600) 600 x))
   \<and> observed_d [Num (1199 / 2)] (Num (1 / 10 ^ 10)) (Num 1)
        (line_d flat_d (Some (clamp_d (- 600) 600)))
        ((line_d flat_d (Some (clamp_d (- 600) 600)))
           \<lparr>v_d := [[Num (1199 / 2)], [Num (2399 / 4)]], vr_d := [Num 600],
            vc_d := [Num (2399 / 4)], vm_d := [Num 600], evalCount_d := 8\<rparr>)
   \<and> length (v_d ((line_d flat_d (Some (clamp_d (- 600) 600)))
           \<lparr>v_d := [[Num (1199 / 2)], [Num (2399 / 4)]], vr_d := [Num 600],
            vc_d := [Num (2399 / 4)], vm_d := [Num 600], evalCount_d := 8\<rparr>))
       = Suc (unat (size_nm_d (line_d flat_d (Some (clamp_d (- 600) 600)))))
   \<and> in_box_d (- 600) 600
        ((line_d flat_d (Some (clamp_d (- 600) 600)))
           \<lparr>v_d := [[Num (1199 / 2)], [Num (2399 / 4)]], vr_d := [Num 600],
            vc_d := [Num (2399 / 4)], vm_d := [Num 600], evalCount_d := 8\<rparr>)"
proof -
  let ?W = "line_d flat_d (Some (clamp_d (- 600) 600))"
  let ?A = "?W\<lparr>v_d := [[Num (1199 / 2)], [Num 600]], evalCount_d := 2\<rparr>"
  let ?B = "?W\<lparr>v_d := [[Num (1199 / 2)], [Num (2399 / 4)]], vr_d := [Num 600],
            vc_d := [Num (2399 / 4)], vm_d := [Num 600], evalCount_d := 8\<rparr>"
  have init: "exec_init_d [Num (1199 / 2)] (Num 1) ?W = Inr ?A"
    by (rule line_d_init)
  have trip: "iteration_d ?A
              = Inr (\<lparr>reflected = False, expanded = False, contracted = True, shrunk = True\<rparr>, ?B)"
    by (rule line_d_trip)
  have "loop_head_d (Num (1 / 10 ^ 10)) ?A 0 ?A"
    by (rule head_first_d)
  moreover have "0 + 1 \<le> configMaxIterations_d ?A"
    by (simp add: line_d_def)
  ultimately have obs: "observed_d [Num (1199 / 2)] (Num (1 / 10 ^ 10)) (Num 1) ?W ?B"
    unfolding observed_d_def using init trip by blast
  have a: "length (v_d ?W) = Suc (unat (size_nm_d ?W))"
    "constrainFunc_d ?W = Some (clamp_d (- 600) 600)"
    by (simp_all add: line_d_def)
  have b: "- overflow_threshold < - 600" "600 < overflow_threshold"
    "600 - (- 600) < overflow_threshold"
    by (simp_all add: overflow_threshold_def)
  have c: "\<forall>x. boxed_d (- 600) 600 (clamp_d (- 600) 600 x)"
    by (simp add: clamp_d_boxed)
  show ?thesis
    using simplex_stays_in_box_unless_overflow [OF a(1) b a(2) c obs] a b c obs by blast
qed

text \<open>
  Without the bound on the width the claim fails. Dimension 1, constant objective, clamp to
  \<open>[-2\<^sup>1\<^sup>0\<^sup>2\<^sup>3, 2\<^sup>1\<^sup>0\<^sup>2\<^sup>3]\<close>, \<open>exec({-1e308}, tolerance, 1.7e308)\<close>: the loop is entered with the
  vertices \<open>-2\<^sup>1\<^sup>0\<^sup>2\<^sup>3\<close> and \<open>2\<^sup>1\<^sup>0\<^sup>2\<^sup>3\<close>, both in the box; the first trip shrinks, the
  difference \<open>v[1][0] - v[0][0] = 2\<^sup>1\<^sup>0\<^sup>2\<^sup>4\<close> overflows, and the trip leaves the vertex
  \<open>v[1] = {+inf}\<close>, which is not constrained again.
\<close>

theorem shrink_overflow_leaves_box:
  "first_trip_d [Num (- (10 ^ 308))] (Num (17 * 10 ^ 307))
     (line_d flat_d (Some (clamp_d (- (2 ^ 1023)) (2 ^ 1023))))
   = Inr ([[Num (- (2 ^ 1023))], [Num (2 ^ 1023)]],
          \<lparr>reflected = False, expanded = False, contracted = True, shrunk = True\<rparr>,
          [[Num (- (2 ^ 1023))], [PosInf]])
   \<and> boxed_d (- (2 ^ 1023)) (2 ^ 1023) [Num (- (2 ^ 1023))]
   \<and> boxed_d (- (2 ^ 1023)) (2 ^ 1023) [Num (2 ^ 1023)]
   \<and> \<not> boxed_d (- (2 ^ 1023)) (2 ^ 1023) [PosInf]
   \<and> - overflow_threshold < - (2 ^ 1023) \<and> 2 ^ 1023 < overflow_threshold
   \<and> overflow_threshold \<le> 2 ^ 1023 - (- (2 ^ 1023))"
proof -
  have "first_trip_d [Num (- (10 ^ 308))] (Num (17 * 10 ^ 307))
     (line_d flat_d (Some (clamp_d (- (2 ^ 1023)) (2 ^ 1023))))
   = Inr ([[Num (- (2 ^ 1023))], [Num (2 ^ 1023)]],
          \<lparr>reflected = False, expanded = False, contracted = True, shrunk = True\<rparr>,
          [[Num (- (2 ^ 1023))], [PosInf]])"
    by (simp add: eval_d)
  moreover have "boxed_d (- (2 ^ 1023)) (2 ^ 1023) [Num (- (2 ^ 1023))]"
    "boxed_d (- (2 ^ 1023)) (2 ^ 1023) [Num (2 ^ 1023)]"
    "\<not> boxed_d (- (2 ^ 1023)) (2 ^ 1023) [PosInf]"
    by (simp_all add: boxed_d_def less_eq_double_def less_double_def)
  moreover have "- overflow_threshold < - (2 ^ 1023)" "2 ^ 1023 < overflow_threshold"
    "overflow_threshold \<le> 2 ^ 1023 - (- (2 ^ 1023))"
    by (simp_all add: overflow_threshold_def)
  ultimately show ?thesis
    by blast
qed


text \<open>
  Claim C1 fails on the code. Failing input: dimension 1, objective \<open>(x - 5)\<^sup>2\<close>, no constraint,
  \<open>setMaxIterations(1)\<close>, \<open>exec({0}, 1e-6, 1)\<close>. The single permitted trip does not
  converge, the guard \<open>++iterationCount <= configMaxIterations\<close> fails with the counter
  already at 2, and the result reports \<open>iterationCount = 2\<close> for \<open>maxIterations = 1\<close>.
\<close>

theorem exhausted_run_reports_one_more:
  "configMaxIterations (setMaxIterations 1 (fresh 1 parabola None)) = 1
   \<and> run_report (exec [0] (1 / 10 ^ 6) 1 (setMaxIterations 1 (fresh 1 parabola None)))
       = Some (Inr (2, 5, 5))"
  unfolding parabola_one_trip run_report_def
  by (simp add: getLastExecResults_def exec_finish_p_counts setMaxIterations_def eval_defs
      parabola_def)

text \<open>
  Claim C2 fails on the code. Failing input: dimension 1, objective \<open>x (x - 1) (x - 5)\<close>, no
  constraint, \<open>exec({0}, tolerance, 1)\<close>. The two initial values are equal, so
  \<open>vs = vh = vg = 0\<close>. The reflection is better than \<open>f[vs]\<close>, the expansion branch runs and
  stores the expansion value in \<open>f[vg]\<close>, which is also \<open>f[vh]\<close>; the third \<open>if\<close> then reads
  the new \<open>f[vh]\<close>, finds \<open>fr >= f[vh]\<close> and contracts and shrinks in the same trip.
\<close>

theorem expansion_and_contraction_in_one_trip:
  "first_trip [0] 1 (fresh 1 cubic None)
   = Inr ([0, 0], (0, 0, 0),
          \<lparr>reflected = False, expanded = True, contracted = True, shrunk = True\<rparr>,
          [[3], [2]], [- 12, - 6])"
proof -
  define W where "W = fresh 1 cubic None"
  define S0 where "S0 = exec_init_p [0] 1 W"
  have w: "wf W" "dim W \<le> length [0::real]" "size_nm W \<noteq> 0"
    by (simp_all add: W_def)
  have w0: "wf S0" "size_nm S0 \<noteq> 0"
    using w by (simp_all add: S0_def wf_exec_init_p)
  have init: "exec_init [0] 1 W = Inr S0"
    using exec_init_eq [OF w(1,2)] by (simp add: S0_def)
  have trip: "iteration S0 = Inr (iteration_p S0)"
    by (rule iteration_eq [OF w0])
  have "roles (doIndexes_p S0) = (0, 0, 0)" "f S0 = [0, 0]"
    by (simp_all add: S0_def W_def roles_def eval_defs cubic_def)
  moreover have "fst (iteration_p S0)
        = \<lparr>reflected = False, expanded = True, contracted = True, shrunk = True\<rparr>"
    "v (snd (iteration_p S0)) = [[3], [2]]" "f (snd (iteration_p S0)) = [- 12, - 6]"
    by (simp_all add: S0_def W_def eval_defs cubic_def)
  ultimately show ?thesis
    by (simp add: first_trip_def init trip doIndexes_eq [OF w0(1)] split_def W_def [symmetric])
qed

text \<open>
  Claim C3, amended. After every recomputation of the role indices on a well-formed
  instance the value table is unchanged, the three indices lie in \<open>0..N\<close>, \<open>vs\<close> indexes a
  minimum of \<open>f\<close> and \<open>vg\<close> a maximum. \<open>vs\<close> keeps its incoming value when that already
  indexes a minimum and is otherwise the first index of the minimum in scan order; likewise
  \<open>vg\<close> for the maximum. \<open>vh\<close> is the first index in scan order of the largest value
  strictly between \<open>f[vs]\<close> and \<open>f[vg]\<close>, and \<open>vh = vs\<close> when no value lies strictly between
  them. The triple is a function of the value table and of the incoming \<open>vs\<close> and \<open>vg\<close>: it
  does not depend on the incoming \<open>vh\<close> or on anything else.
\<close>

theorem role_indices_recomputed:
  assumes "wf st"
  shows "\<exists>st'. doIndexes st = Inr st' \<and> f st' = f st
           \<and> vs st' \<le> dim st \<and> vh st' \<le> dim st \<and> vg st' \<le> dim st
           \<and> (\<forall>j \<le> dim st. f st ! vs st' \<le> f st ! j \<and> f st ! j \<le> f st ! vg st')
           \<and> (if \<forall>j \<le> dim st. f st ! vs st \<le> f st ! j then vs st' = vs st
               else \<forall>j < vs st'. f st ! vs st' < f st ! j)
           \<and> (if \<forall>j \<le> dim st. f st ! j \<le> f st ! vg st then vg st' = vg st
               else \<forall>j < vg st'. f st ! j < f st ! vg st')
           \<and> (if \<exists>j \<le> dim st. f st ! vs st' < f st ! j \<and> f st ! j < f st ! vg st'
               then f st ! vs st' < f st ! vh st' \<and> f st ! vh st' < f st ! vg st'
                    \<and> (\<forall>j \<le> dim st. f st ! j < f st ! vg st' \<longrightarrow> f st ! j \<le> f st ! vh st')
                    \<and> (\<forall>j < vh st'. f st ! j \<noteq> f st ! vh st')
               else vh st' = vs st')
           \<and> (\<forall>st2. wf st2 \<and> size_nm st2 = size_nm st \<and> f st2 = f st
                     \<and> vs st2 = vs st \<and> vg st2 = vg st
                 \<longrightarrow> map_sum id roles (doIndexes st2) = Inr (roles st'))"
proof (intro exI conjI)
  show "doIndexes st = Inr (doIndexes_p st)"
    by (rule doIndexes_eq [OF assms])
  show "f (doIndexes_p st) = f st"
    by simp
  show "vs (doIndexes_p st) \<le> dim st" "vh (doIndexes_p st) \<le> dim st"
    "vg (doIndexes_p st) \<le> dim st"
    using doIndexes_p_roles(1) [OF assms] by simp_all
  show "\<forall>j \<le> dim st. f st ! vs (doIndexes_p st) \<le> f st ! j
                     \<and> f st ! j \<le> f st ! vg (doIndexes_p st)"
    by (rule doIndexes_p_roles(2) [OF assms])
  show "if \<forall>j \<le> dim st. f st ! vs st \<le> f st ! j then vs (doIndexes_p st) = vs st
        else \<forall>j < vs (doIndexes_p st). f st ! vs (doIndexes_p st) < f st ! j"
    by (rule doIndexes_p_roles(3) [OF assms])
  show "if \<forall>j \<le> dim st. f st ! j \<le> f st ! vg st then vg (doIndexes_p st) = vg st
        else \<forall>j < vg (doIndexes_p st). f st ! j < f st ! vg (doIndexes_p st)"
    by (rule doIndexes_p_roles(4) [OF assms])
  show "if \<exists>j \<le> dim st. f st ! vs (doIndexes_p st) < f st ! j
                         \<and> f st ! j < f st ! vg (doIndexes_p st)
        then f st ! vs (doIndexes_p st) < f st ! vh (doIndexes_p st)
             \<and> f st ! vh (doIndexes_p st) < f st ! vg (doIndexes_p st)
             \<and> (\<forall>j \<le> dim st. f st ! j < f st ! vg (doIndexes_p st)
                    \<longrightarrow> f st ! j \<le> f st ! vh (doIndexes_p st))
             \<and> (\<forall>j < vh (doIndexes_p st). f st ! j \<noteq> f st ! vh (doIndexes_p st))
        else vh (doIndexes_p st) = vs (doIndexes_p st)"
    by (rule doIndexes_p_roles(5) [OF assms])
  show "\<forall>st2. wf st2 \<and> size_nm st2 = size_nm st \<and> f st2 = f st
                     \<and> vs st2 = vs st \<and> vg st2 = vg st
                 \<longrightarrow> map_sum id roles (doIndexes st2) = Inr (roles (doIndexes_p st))"
  proof (intro allI impI)
    fix st2
    assume h: "wf st2 \<and> size_nm st2 = size_nm st \<and> f st2 = f st
                     \<and> vs st2 = vs st \<and> vg st2 = vg st"
    then have "doIndexes st2 = Inr (doIndexes_p st2)"
      by (simp add: doIndexes_eq)
    moreover have "roles (doIndexes_p st2) = roles (doIndexes_p st)"
      by (rule doIndexes_p_depends) (use h in simp_all)
    ultimately show "map_sum id roles (doIndexes st2) = Inr (roles (doIndexes_p st))"
      by simp
  qed
qed

theorem role_indices_recomputed_witness:
  "wf (exec_init_p [0] 1 (fresh 1 parabola None))
   \<and> (\<exists>st'. doIndexes (exec_init_p [0] 1 (fresh 1 parabola None)) = Inr st'
         \<and> f st' = [25, 16] \<and> roles st' = (1, 1, 0))"
proof -
  let ?S = "exec_init_p [0] 1 (fresh 1 parabola None)"
  have w: "wf ?S"
    by (simp add: wf_exec_init_p)
  from role_indices_recomputed [OF w] obtain st' where 1: "doIndexes ?S = Inr st'"
    by (elim exE conjE)
  then have "st' = doIndexes_p ?S"
    by (simp add: doIndexes_eq [OF w])
  moreover have "f (doIndexes_p ?S) = [25, 16]" "roles (doIndexes_p ?S) = (1, 1, 0)"
    by (simp_all add: roles_def eval_defs parabola_def)
  ultimately show ?thesis
    using w 1 by simp
qed

text \<open>
  Claim C3 as stated fails. Two recomputations on the same value table \<open>{0, 0}\<close> give
  different triples: the second recomputation of a run whose first trip left \<open>vg = 1\<close>
  behind (objective \<open>spike\<close>) gives \<open>(vs, vh, vg) = (0, 0, 1)\<close>, the first recomputation of
  a run with a constant objective gives \<open>(0, 0, 0)\<close>. In both, no value is strictly less
  than \<open>f[vg]\<close>, and \<open>vh\<close> indexes a value equal to \<open>f[vg]\<close>.
\<close>

theorem role_indices_depend_on_history:
  "second_roles [0] 1 (fresh 1 spike None) = Inr ([0, 0], (0, 0, 1))
   \<and> first_roles [0] 1 (fresh 1 flat None) = Inr ([0, 0], (0, 0, 0))"
proof
  define W where "W = fresh 1 spike None"
  define S0 where "S0 = exec_init_p [0] 1 W"
  define S1 where "S1 = snd (iteration_p S0)"
  have w: "wf W" "dim W \<le> length [0::real]" "size_nm W \<noteq> 0"
    by (simp_all add: W_def)
  have w0: "wf S0" "size_nm S0 \<noteq> 0"
    using w by (simp_all add: S0_def wf_exec_init_p)
  have w1: "wf S1"
    using w0 by (simp add: S1_def wf_iteration_p)
  have init: "exec_init [0] 1 W = Inr S0"
    using exec_init_eq [OF w(1,2)] by (simp add: S0_def)
  have trip: "iteration S0 = Inr (fst (iteration_p S0), S1)"
    by (simp add: iteration_eq [OF w0] S1_def)
  have "f S1 = [0, 0]" "roles (doIndexes_p S1) = (0, 0, 1)"
    by (simp_all add: S1_def S0_def W_def roles_def eval_defs spike_def)
  then show "second_roles [0] 1 (fresh 1 spike None) = Inr ([0, 0], (0, 0, 1))"
    by (simp add: second_roles_def init trip doIndexes_eq [OF w1] W_def [symmetric])
next
  define W where "W = fresh 1 flat None"
  define S0 where "S0 = exec_init_p [0] 1 W"
  have w: "wf W" "dim W \<le> length [0::real]"
    by (simp_all add: W_def)
  have w0: "wf S0"
    using w by (simp add: S0_def wf_exec_init_p)
  have init: "exec_init [0] 1 W = Inr S0"
    using exec_init_eq [OF w(1,2)] by (simp add: S0_def)
  have "f S0 = [0, 0]" "roles (doIndexes_p S0) = (0, 0, 0)"
    by (simp_all add: S0_def W_def roles_def eval_defs flat_def)
  then show "first_roles [0] 1 (fresh 1 flat None) = Inr ([0, 0], (0, 0, 0))"
    by (simp add: first_roles_def init doIndexes_eq [OF w0] W_def [symmetric])
qed



text \<open>
  Claim C10, amended. For every well-formed instance (the shape the constructor sets up,
  with a constraint function that returns a vector as long as the one it was given) of
  dimension \<open>N \<ge> 1\<close> and every start vector of length at least \<open>N\<close>: no container access of
  \<open>exec\<close> is out of range and no counted loop is without exit, so \<open>exec\<close> never fails; and
  when \<open>configMaxIterations\<close> is not \<^verbatim>\<open>0xFFFFFFFF\<close>, \<open>exec\<close> returns, with a well-formed
  instance.
\<close>

theorem exec_in_bounds:
  assumes "wf st" and "size_nm st \<noteq> 0" and "dim st \<le> length start"
  shows "(\<forall>e. exec start tolerancee scale st \<noteq> Some (Inl e))
         \<and> (configMaxIterations st \<noteq> - 1 \<longrightarrow>
              (\<exists>st'. exec start tolerancee scale st = Some (Inr st') \<and> wf st'))"
proof -
  define m where "m = configMaxIterations st"
  define I where "I = (\<lambda>(k::u32) s. wf s \<and> size_nm s \<noteq> 0 \<and> configMaxIterations s = m)"
  have I0: "I 0 (exec_init_p start scale st)"
    using assms(1,2) by (simp add: I_def m_def wf_exec_init_p)
  have wfI: "wf s \<and> size_nm s \<noteq> 0" if "I k s" for k s
    using that by (simp add: I_def)
  have wfI': "wf s \<and> size_nm s \<noteq> 0 \<and> configMaxIterations s = m" if "I k s" for k s
    using that by (simp add: I_def)
  have step: "I (k + 1) (snd (iteration_p s))" if "I k s" for k s
    using that by (simp add: I_def wf_iteration_p)
  have ok: "\<exists>st'. r = Inr st' \<and> wf st'" if "exec start tolerancee scale st = Some r" for r
  proof -
    have "\<exists>it s2. exec_loop tolerancee 0 (exec_init_p start scale st) = Some (Inr (it, s2))
           \<and> left_by tolerancee I (Inr (it, s2)) \<and> wf s2 \<and> r = Inr (exec_finish_p it s2)"
      by (rule exec_result [where I = I, OF assms(1,3) that I0]) (simp_all add: I_def wf_iteration_p)
    then show ?thesis
      by (auto simp: wf_exec_finish_p)
  qed
  have "\<forall>e. exec start tolerancee scale st \<noteq> Some (Inl e)"
    using ok by fastforce
  moreover have "\<exists>st'. exec start tolerancee scale st = Some (Inr st') \<and> wf st'" if "m \<noteq> - 1"
  proof -
    have "\<exists>r. exec_loop tolerancee 0 (exec_init_p start scale st) = Some r"
      by (rule exec_loop_total [where I = I and m = m, OF I0])
        (simp_all add: I_def wf_iteration_p that)
    then obtain r where "exec_loop tolerancee 0 (exec_init_p start scale st) = Some r"
      by blast
    then have "\<exists>r'. exec start tolerancee scale st = Some r'"
      by (cases r) (auto simp: exec_unfold [OF assms(1,3)])
    then obtain r' where "exec start tolerancee scale st = Some r'"
      by blast
    with ok show ?thesis by blast
  qed
  ultimately show ?thesis
    by (simp add: m_def)
qed

theorem exec_in_bounds_witness:
  "wf (fresh 1 parabola (Some myConstraints))
   \<and> size_nm (fresh 1 parabola (Some myConstraints)) \<noteq> 0
   \<and> dim (fresh 1 parabola (Some myConstraints)) \<le> length [0::real]
   \<and> configMaxIterations (fresh 1 parabola (Some myConstraints)) \<noteq> - 1
   \<and> (\<forall>e. exec [0] (1 / 10 ^ 10) 1 (fresh 1 parabola (Some myConstraints)) \<noteq> Some (Inl e))
   \<and> (\<exists>st'. exec [0] (1 / 10 ^ 10) 1 (fresh 1 parabola (Some myConstraints)) = Some (Inr st')
          \<and> wf st')"
proof -
  let ?W = "fresh 1 parabola (Some myConstraints)"
  have a: "wf ?W" "size_nm ?W \<noteq> 0" "dim ?W \<le> length [0::real]"
    by simp_all
  have b: "configMaxIterations ?W \<noteq> - 1"
    by simp
  show ?thesis
    using exec_in_bounds [OF a, of "1 / 10 ^ 10" 1] a b by blast
qed

text \<open>
  Claim C10 as stated fails: with \<open>N = 1\<close> and a start vector of length 1, \<open>exec\<close> is not
  total. After \<open>setMaxIterations(0xFFFFFFFF)\<close> the guard
  \<open>++iterationCount <= configMaxIterations\<close> is true for every counter value, and with
  tolerance \<open>0\<close> the test \<open>s < tolerancee\<close> never holds, so the loop never ends.
\<close>

theorem exec_does_not_return:
  "exec [0] 0 1 (setMaxIterations (- 1) (fresh 1 parabola None)) = None"
proof -
  let ?W = "setMaxIterations (- 1) (fresh 1 parabola None)"
  have a: "wf ?W" "dim ?W \<le> length [0::real]" "size_nm ?W \<noteq> 0"
    by simp_all
  have "exec_loop 0 0 (exec_init_p [0] 1 ?W) = None"
    by (rule exec_loop_diverges) (use a in \<open>simp_all add: wf_exec_init_p\<close>)
  then show ?thesis
    by (simp add: exec_unfold [OF a(1,2)])
qed

text \<open>
  Claim C7, amended. For every run of \<open>exec\<close> that returns, on a well-formed instance of
  dimension at least one: the \<open>evalCount\<close> of the Result is the number of calls of the
  objective during the run modulo \<open>2\<^sup>3\<^sup>2\<close> (the counter is a \<^verbatim>\<open>uint32_t\<close> that wraps), and
  equals that number whenever fewer than \<open>2\<^sup>3\<^sup>2\<close> calls were made. The counter is reset at the
  start of the run and afterwards only incremented, once per call: \<open>N + 1\<close> calls in the
  initial pass, then in every trip one for the reflection, one for an expansion, one for a
  contraction and \<open>N + 3\<close> for a shrink, and one final call at \<open>v[vs]\<close> that the reported count
  includes.
\<close>

theorem evalCount_reports_invocations:
  assumes "wf st" and "size_nm st \<noteq> 0" and "dim st \<le> length start"
    and "exec start tolerancee scale st = Some (Inr st')"
  shows "res_evalCount (getLastExecResults st') = of_nat (invocations st' - invocations st)
       \<and> invocations st \<le> invocations st'
       \<and> (invocations st' - invocations st < 2 ^ 32 \<longrightarrow>
            unat (res_evalCount (getLastExecResults st')) = invocations st' - invocations st)
       \<and> (\<exists>st1 it st2.
            exec_init start scale st = Inr st1
            \<and> evalCount st1 = of_nat (dim st + 1)
            \<and> invocations st1 = invocations st + (dim st + 1)
            \<and> (\<forall>k sh p s. loop_head tolerancee st1 k sh \<and> iteration sh = Inr (p, s)
                  \<longrightarrow> adds (evals_of (dim st) p) sh s)
            \<and> exec_loop tolerancee 0 st1 = Some (Inr (it, st2))
            \<and> res_evalCount (getLastExecResults st') = evalCount st2 + 1
            \<and> invocations st' = invocations st2 + 1)"
proof -
  let ?st1 = "exec_init_p start scale st"
  from exec_reports [OF assms] obtain it st2 where
    loop: "exec_loop tolerancee 0 ?st1 = Some (Inr (it, st2))"
    and st': "st' = exec_finish_p it st2"
    and le: "invocations st \<le> invocations st2"
    and ec: "evalCount st2 = of_nat (invocations st2 - invocations st)"
    by blast
  have r: "res_evalCount (getLastExecResults st') = evalCount st2 + 1"
    and i: "invocations st' = invocations st2 + 1"
    by (simp_all add: st' getLastExecResults_def exec_finish_p_counts)
  have d: "invocations st' - invocations st = Suc (invocations st2 - invocations st)"
    using le i by simp
  have 1: "res_evalCount (getLastExecResults st') = of_nat (invocations st' - invocations st)"
    by (simp add: r ec d)
  have 2: "invocations st \<le> invocations st'"
    using le i by simp
  have 3: "unat (res_evalCount (getLastExecResults st')) = invocations st' - invocations st"
    if "invocations st' - invocations st < 2 ^ 32"
    unfolding 1 using that by (simp add: unat_of_nat take_bit_nat_eq_self)
  have 4: "exec_init start scale st = Inr ?st1"
    by (rule exec_init_eq [OF assms(1,3)])
  have 5: "\<forall>k sh p s. loop_head tolerancee ?st1 k sh \<and> iteration sh = Inr (p, s)
                  \<longrightarrow> adds (evals_of (dim st) p) sh s"
    using trips_add [OF assms(1,2)] by blast
  have "\<exists>st1 it st2.
            exec_init start scale st = Inr st1
            \<and> evalCount st1 = of_nat (dim st + 1)
            \<and> invocations st1 = invocations st + (dim st + 1)
            \<and> (\<forall>k sh p s. loop_head tolerancee st1 k sh \<and> iteration sh = Inr (p, s)
                  \<longrightarrow> adds (evals_of (dim st) p) sh s)
            \<and> exec_loop tolerancee 0 st1 = Some (Inr (it, st2))
            \<and> res_evalCount (getLastExecResults st') = evalCount st2 + 1
            \<and> invocations st' = invocations st2 + 1"
    using 4 5 loop r i exec_init_p_counts [of start scale st] by blast
  with 1 2 3 show ?thesis by blast
qed

theorem evalCount_reports_invocations_witness:
  "wf (setMaxIterations 1 (fresh 1 parabola None))
   \<and> size_nm (setMaxIterations 1 (fresh 1 parabola None)) \<noteq> 0
   \<and> dim (setMaxIterations 1 (fresh 1 parabola None)) \<le> length [0::real]
   \<and> (\<exists>st'. exec [0] (1 / 10 ^ 6) 1 (setMaxIterations 1 (fresh 1 parabola None)) = Some (Inr st')
        \<and> res_evalCount (getLastExecResults st') = 5
        \<and> invocations st' - invocations (setMaxIterations 1 (fresh 1 parabola None)) = 5)"
proof -
  let ?W = "setMaxIterations 1 (fresh 1 parabola None)"
  let ?st' = "exec_finish_p 2 (snd (iteration_p (exec_init_p [0] 1 ?W)))"
  have a: "wf ?W" "size_nm ?W \<noteq> 0" "dim ?W \<le> length [0::real]"
    by simp_all
  have b: "exec [0] (1 / 10 ^ 6) 1 ?W = Some (Inr ?st')"
    by (rule parabola_one_trip)
  have c: "invocations ?st' = 5"
    by (simp add: exec_finish_p_counts setMaxIterations_def eval_defs parabola_def)
  have "res_evalCount (getLastExecResults ?st') = of_nat (invocations ?st' - invocations ?W)"
    using evalCount_reports_invocations [OF a b] by blast
  then show ?thesis
    using a b c by simp
qed

text \<open>
  Claim C7 as stated fails: the counter is a \<^verbatim>\<open>uint32_t\<close>. With \<open>N = 1\<close>, a constant
  objective, tolerance \<open>0\<close> and \<open>setMaxIterations(715827883)\<close> every trip shrinks and calls the
  objective 6 times; the run makes \<open>2 + 6 \<sqdot> 715827883 + 1 = 4294967301\<close> calls and reports
  \<open>evalCount = 5\<close> (and \<open>iterationCount = 715827884\<close>).
\<close>

theorem evalCount_wraps:
  "invocations (setMaxIterations 715827883 (fresh 1 flat None)) = 0
   \<and> run_report (exec [0] 0 1 (setMaxIterations 715827883 (fresh 1 flat None)))
       = Some (Inr (715827884, 5, 4294967301))"
proof -
  have "(715827883 :: u32) \<noteq> - 1"
    by simp
  from flat_run [OF this] show ?thesis
    by simp
qed

end
